theory Spec2Isabelle
  imports Complex_Main
begin

section \<open>Data model\<close>

text \<open>
  The module \<open>statistic.py\<close> computes descriptive statistics of the columns of a pandas
  \<open>DataFrame\<close>. Its numbers are numpy \<open>float64\<close> values. The theory has two readings of
  the numeric statistics:

  \<^item> the exact reading (\<open>percentile\<close>, \<open>descriptive_stats_numeric\<close>), where \<open>-\<close>, \<open>*\<close>,
    \<open>+\<close> and the comparisons are those of \<open>real\<close>. It is the reference where only
    counts, success and order matter, and on inputs on which every float operation is exact;
  \<^item> the binary64 reading (\<open>percentile_f64\<close>, \<open>descriptive_stats_numeric_f64\<close>), where
    every operation rounds to the nearest double, overflows to an infinity and follows
    the IEEE rules for infinities and NaN. The missing percentage of the table functions
    is computed in this reading only.

  A \<open>Series\<close> is a name with its values. The per-column functions receive series from
  which missing entries have been dropped, so a series holds plain values.
\<close>

datatype error = ValueError | KeyError

record 'v series =
  sname :: string
  svalues :: "'v list"

subsection \<open>Binary64 floating point\<close>

text \<open>
  A \<open>float64\<close> is a real number (one that is a double), an infinity or NaN; the sign of
  zero is not modelled. \<open>round64\<close> is rounding to the nearest double, ties to the even
  significand: the unit of the binade of \<open>x\<close> is \<open>2\<close> to the power \<open>e - 52\<close>, with
  \<open>e\<close> the binary exponent of \<open>x\<close> and at least \<open>-1022\<close> (subnormal numbers); a result
  of magnitude \<open>2\<^sup>1\<^sup>0\<^sup>2\<^sup>4\<close> or more is an overflow. \<open>rint\<close> rounds to the nearest integer,
  ties to the even one. Each arithmetic operation is the exact operation followed by
  \<open>round64\<close>, with the IEEE results on infinities and NaN; a comparison with NaN is false.
\<close>

definition rint :: "real \<Rightarrow> real" where
  "rint x =
     (let f = \<lfloor>x\<rfloor>; d = x - of_int f
      in if d < 1 / 2 then of_int f
         else if d > 1 / 2 then of_int (f + 1)
         else if even f then of_int f else of_int (f + 1))"

datatype float64 = Finite real | PosInf | NegInf | NaN

definition round64 :: "real \<Rightarrow> float64" where
  "round64 x =
     (if x = 0 then Finite 0
      else let e = max \<lfloor>log 2 \<bar>x\<bar>\<rfloor> (- 1022);
               ulp = 2 powi (e - 52);
               y = rint (x / ulp) * ulp
           in if 2 ^ 1024 \<le> \<bar>y\<bar> then (if 0 < x then PosInf else NegInf) else Finite y)"

fun fneg :: "float64 \<Rightarrow> float64" where
  "fneg (Finite a) = Finite (- a)"
| "fneg PosInf = NegInf"
| "fneg NegInf = PosInf"
| "fneg NaN = NaN"

fun fadd :: "float64 \<Rightarrow> float64 \<Rightarrow> float64" where
  "fadd (Finite a) (Finite b) = round64 (a + b)"
| "fadd NaN y = NaN"
| "fadd x NaN = NaN"
| "fadd PosInf NegInf = NaN"
| "fadd NegInf PosInf = NaN"
| "fadd PosInf y = PosInf"
| "fadd NegInf y = NegInf"
| "fadd (Finite a) y = y"

definition fsub :: "float64 \<Rightarrow> float64 \<Rightarrow> float64" where
  "fsub x y = fadd x (fneg y)"

fun fmul :: "float64 \<Rightarrow> float64 \<Rightarrow> float64" where
  "fmul (Finite a) (Finite b) = round64 (a * b)"
| "fmul NaN y = NaN"
| "fmul x NaN = NaN"
| "fmul (Finite a) y = (if a = 0 then NaN else if 0 < a then y else fneg y)"
| "fmul x (Finite b) = (if b = 0 then NaN else if 0 < b then x else fneg x)"
| "fmul x y = (if x = y then PosInf else NegInf)"

fun fdiv :: "float64 \<Rightarrow> float64 \<Rightarrow> float64" where
  "fdiv (Finite a) (Finite b) =
     (if b = 0 then (if a = 0 then NaN else if 0 < a then PosInf else NegInf)
      else round64 (a / b))"
| "fdiv NaN y = NaN"
| "fdiv x NaN = NaN"
| "fdiv (Finite a) y = Finite 0"
| "fdiv x (Finite b) = (if 0 \<le> b then x else fneg x)"
| "fdiv x y = NaN"

fun flt :: "float64 \<Rightarrow> float64 \<Rightarrow> bool" where
  "flt (Finite a) (Finite b) \<longleftrightarrow> a < b"
| "flt NaN y \<longleftrightarrow> False"
| "flt x NaN \<longleftrightarrow> False"
| "flt x NegInf \<longleftrightarrow> False"
| "flt PosInf y \<longleftrightarrow> False"
| "flt x y \<longleftrightarrow> True"

definition fgt :: "float64 \<Rightarrow> float64 \<Rightarrow> bool" where
  "fgt x y \<longleftrightarrow> flt y x"

fun fle :: "float64 \<Rightarrow> float64 \<Rightarrow> bool" where
  "fle NaN y \<longleftrightarrow> False"
| "fle x NaN \<longleftrightarrow> False"
| "fle x y \<longleftrightarrow> \<not> flt y x"

fun frint :: "float64 \<Rightarrow> float64" where
  "frint (Finite a) = Finite (rint a)"
| "frint x = x"

fun fsqrt :: "float64 \<Rightarrow> float64" where
  "fsqrt (Finite a) = (if a < 0 then NaN else round64 (sqrt a))"
| "fsqrt PosInf = PosInf"
| "fsqrt x = NaN"

subsection \<open>Library routines used by the numeric statistics\<close>

text \<open>
  \<open>scipy.stats.describe(a)\<close> with its defaults (\<open>ddof=1\<close>, \<open>bias=True\<close>): it raises
  \<open>ValueError\<close> on an empty input; otherwise it returns the number of observations,
  the pair of minimum and maximum, the mean, the variance with denominator \<open>n - 1\<close>
  (not finite for a single observation), and the skewness and excess kurtosis from the
  biased central moments (not finite when the second moment is zero).
\<close>

record describe_result =
  nobs :: nat
  minmax :: "real \<times> real"
  mean :: real
  variance :: "real option"
  skewness :: "real option"
  kurtosis :: "real option"

definition np_mean :: "real list \<Rightarrow> real" where
  "np_mean a = sum_list a / real (length a)"

definition moment :: "nat \<Rightarrow> real list \<Rightarrow> real" where
  "moment k a = sum_list (map (\<lambda>x. (x - np_mean a) ^ k) a) / real (length a)"

definition np_var_ddof1 :: "real list \<Rightarrow> real option" where
  "np_var_ddof1 a =
     (if length a = 1 then None
      else Some (sum_list (map (\<lambda>x. (x - np_mean a) ^ 2) a) / real (length a - 1)))"

definition skew :: "real list \<Rightarrow> real option" where
  "skew a = (let m2 = moment 2 a; m3 = moment 3 a
             in if m2 = 0 then None else Some (m3 / (m2 powr (3 / 2))))"

definition kurtosis_fisher :: "real list \<Rightarrow> real option" where
  "kurtosis_fisher a = (let m2 = moment 2 a; m4 = moment 4 a
                        in if m2 = 0 then None else Some (m4 / m2 ^ 2 - 3))"

definition describe :: "real list \<Rightarrow> error + describe_result" where
  "describe a =
     (if a = [] then Inl ValueError
      else Inr \<lparr> nobs = length a,
                 minmax = (Min (set a), Max (set a)),
                 mean = np_mean a,
                 variance = np_var_ddof1 a,
                 skewness = skew a,
                 kurtosis = kurtosis_fisher a \<rparr>)"

text \<open>
  \<open>numpy.percentile(a, p)\<close> with the default method \<open>linear\<close>: on the sorted data the
  virtual index is \<open>(n - 1) * p / 100\<close>; the result interpolates linearly between the
  entries at the floor of the virtual index and at the next index, the latter clipped to
  the last entry.
\<close>

definition lerp :: "real \<Rightarrow> real \<Rightarrow> real \<Rightarrow> real" where
  "lerp a b t = a + (b - a) * t"

definition percentile :: "real list \<Rightarrow> real \<Rightarrow> real" where
  "percentile a p =
     (let arr = sort a;
          values_count = length arr;
          virtual_index = real (values_count - 1) * (p / 100);
          previous_index = nat \<lfloor>virtual_index\<rfloor>;
          next_index = min (previous_index + 1) (values_count - 1);
          gamma = virtual_index - real previous_index
      in lerp (arr ! previous_index) (arr ! next_index) gamma)"

subsection \<open>Numeric column statistics\<close>

record numeric_stats =
  ns_column :: string
  ns_n :: nat
  ns_min :: real
  ns_max :: real
  ns_mean :: real
  ns_std :: "real option"
  ns_median :: real
  ns_q1 :: real
  ns_q3 :: real
  ns_iqr :: real
  ns_skewness :: "real option"
  ns_kurtosis :: "real option"
  ns_lower_fence :: real
  ns_upper_fence :: real
  ns_n_outliers :: nat

definition descriptive_stats_numeric :: "real series \<Rightarrow> real \<Rightarrow> error + numeric_stats" where
  "descriptive_stats_numeric data tukey_factor =
     (case describe (svalues data) of
        Inl e \<Rightarrow> Inl e
      | Inr desc \<Rightarrow>
          (let percentiles = map (percentile (svalues data)) [25, 50, 75];
               q1 = percentiles ! 0;
               q3 = percentiles ! 2;
               iqr = q3 - q1;
               lower_fence = q1 - tukey_factor * iqr;
               upper_fence = q3 + tukey_factor * iqr;
               outliers = filter (\<lambda>v. v < lower_fence \<or> v > upper_fence) (svalues data)
           in Inr \<lparr> ns_column = sname data,
                      ns_n = nobs desc,
                      ns_min = fst (minmax desc),
                      ns_max = snd (minmax desc),
                      ns_mean = mean desc,
                      ns_std = map_option sqrt (variance desc),
                      ns_median = percentiles ! 1,
                      ns_q1 = q1,
                      ns_q3 = q3,
                      ns_iqr = iqr,
                      ns_skewness = skewness desc,
                      ns_kurtosis = kurtosis desc,
                      ns_lower_fence = lower_fence,
                      ns_upper_fence = upper_fence,
                      ns_n_outliers = length outliers \<rparr>))"

text \<open>The default of the parameter \<open>tukey_factor\<close>.\<close>

definition tukey_factor_default :: real where
  "tukey_factor_default = 3 / 2"

subsection \<open>Numeric column statistics in binary64\<close>

text \<open>
  \<open>numpy.percentile\<close> as numpy computes it: the data are sorted, the quantile is
  \<open>p / 100\<close>, the virtual index \<open>(n - 1) * quantile\<close>, and the interpolation between the
  two neighbours \<open>a\<close> and \<open>b\<close> is \<open>a + (b - a) * t\<close>, replaced by
  \<open>b - (b - a) * (1 - t)\<close> where \<open>t \<ge> 0.5\<close>; every operation is a float operation. A NaN
  among the data makes the result NaN. For a virtual index at the last position numpy
  takes the last entry for both neighbours, which gives the same value.

  The mean, variance, skewness and kurtosis of \<open>scipy.stats.describe\<close> are sums that
  scipy and numpy evaluate in an order of their own; they are an argument of the model,
  and no statement below depends on them. \<open>no_moments\<close> fills the argument in the
  closed examples.
\<close>

fun finsort :: "float64 \<Rightarrow> float64 list \<Rightarrow> float64 list" where
  "finsort x [] = [x]"
| "finsort x (y # ys) = (if fle x y then x # y # ys else y # finsort x ys)"

definition fsort :: "float64 list \<Rightarrow> float64 list" where
  "fsort xs = foldr finsort xs []"

definition lerp_f64 :: "float64 \<Rightarrow> float64 \<Rightarrow> float64 \<Rightarrow> float64" where
  "lerp_f64 a b t =
     (let diff_b_a = fsub b a
      in if fle (Finite (1 / 2)) t then fsub b (fmul diff_b_a (fsub (Finite 1) t))
         else fadd a (fmul diff_b_a t))"

definition percentile_f64 :: "float64 list \<Rightarrow> real \<Rightarrow> float64" where
  "percentile_f64 a p =
     (if NaN \<in> set a then NaN
      else let arr = fsort a;
               values_count = length arr;
               quantile = fdiv (Finite p) (Finite 100);
               virtual_index = fmul (round64 (real (values_count - 1))) quantile
           in case virtual_index of
                Finite vi \<Rightarrow>
                  (let previous_index = nat \<lfloor>vi\<rfloor>;
                       next_index = min (previous_index + 1) (values_count - 1);
                       gamma = fsub virtual_index (round64 (real previous_index))
                   in lerp_f64 (arr ! previous_index) (arr ! next_index) gamma)
              | _ \<Rightarrow> NaN)"

record describe_moments =
  dm_mean :: float64
  dm_variance :: float64
  dm_skewness :: float64
  dm_kurtosis :: float64

record numeric_stats_f64 =
  nf_column :: string
  nf_n :: nat
  nf_min :: float64
  nf_max :: float64
  nf_mean :: float64
  nf_std :: float64
  nf_median :: float64
  nf_q1 :: float64
  nf_q3 :: float64
  nf_iqr :: float64
  nf_skewness :: float64
  nf_kurtosis :: float64
  nf_lower_fence :: float64
  nf_upper_fence :: float64
  nf_n_outliers :: nat

definition np_min :: "float64 list \<Rightarrow> float64" where
  "np_min a = (if NaN \<in> set a then NaN else hd (fsort a))"

definition np_max :: "float64 list \<Rightarrow> float64" where
  "np_max a = (if NaN \<in> set a then NaN else last (fsort a))"

definition descriptive_stats_numeric_f64 ::
  "describe_moments \<Rightarrow> float64 series \<Rightarrow> float64 \<Rightarrow> error + numeric_stats_f64" where
  "descriptive_stats_numeric_f64 desc data tukey_factor =
     (if svalues data = [] then Inl ValueError
      else
        (let percentiles = map (percentile_f64 (svalues data)) [25, 50, 75];
             q1 = percentiles ! 0;
             q3 = percentiles ! 2;
             iqr = fsub q3 q1;
             lower_fence = fsub q1 (fmul tukey_factor iqr);
             upper_fence = fadd q3 (fmul tukey_factor iqr);
             outliers = filter (\<lambda>v. flt v lower_fence \<or> fgt v upper_fence) (svalues data)
         in Inr \<lparr> nf_column = sname data,
                    nf_n = length (svalues data),
                    nf_min = np_min (svalues data),
                    nf_max = np_max (svalues data),
                    nf_mean = dm_mean desc,
                    nf_std = fsqrt (dm_variance desc),
                    nf_median = percentiles ! 1,
                    nf_q1 = q1,
                    nf_q3 = q3,
                    nf_iqr = iqr,
                    nf_skewness = dm_skewness desc,
                    nf_kurtosis = dm_kurtosis desc,
                    nf_lower_fence = lower_fence,
                    nf_upper_fence = upper_fence,
                    nf_n_outliers = length outliers \<rparr>))"

definition no_moments :: describe_moments where
  "no_moments = \<lparr> dm_mean = NaN, dm_variance = NaN, dm_skewness = NaN, dm_kurtosis = NaN \<rparr>"

subsection \<open>Categorical column statistics\<close>

text \<open>
  \<open>Series.value_counts()\<close>: the distinct values in the order of their first appearance,
  each with its number of occurrences, sorted by descending count with a stable sort.
  \<open>Series.nunique()\<close> is the number of distinct values. \<open>idxmax()\<close> is the first label
  that carries the maximal count and raises \<open>ValueError\<close> on an empty series.
\<close>

definition unique :: "'a list \<Rightarrow> 'a list" where
  "unique xs = rev (remdups (rev xs))"

definition value_counts :: "'a list \<Rightarrow> ('a \<times> nat) list" where
  "value_counts xs =
     sort_key (\<lambda>vc. - int (snd vc)) (map (\<lambda>v. (v, count_list xs v)) (unique xs))"

definition nunique :: "'a list \<Rightarrow> nat" where
  "nunique xs = length (unique xs)"

definition counts_max :: "('a \<times> nat) list \<Rightarrow> nat" where
  "counts_max vc = Max (set (map snd vc))"

definition idxmax :: "('a \<times> nat) list \<Rightarrow> error + 'a" where
  "idxmax vc =
     (if vc = [] then Inl ValueError
      else case find (\<lambda>e. snd e = counts_max vc) vc of
             None \<Rightarrow> Inl ValueError
           | Some e \<Rightarrow> Inr (fst e))"

record 'a categorical_stats =
  cs_column :: string
  cs_n :: nat
  cs_n_unique :: nat
  cs_mode :: 'a
  cs_mode_count :: nat
  cs_second_most_common :: "'a option"
  cs_second_most_common_count :: "nat option"

definition descriptive_stats_categorical :: "'a series \<Rightarrow> error + 'a categorical_stats" where
  "descriptive_stats_categorical data =
     (let vcs = value_counts (svalues data)
      in case idxmax vcs of
           Inl e \<Rightarrow> Inl e
         | Inr m \<Rightarrow>
             Inr \<lparr> cs_column = sname data,
                    cs_n = length (svalues data),
                    cs_n_unique = nunique (svalues data),
                    cs_mode = m,
                    cs_mode_count = counts_max vcs,
                    cs_second_most_common =
                      (if length vcs > 1 then Some (fst (vcs ! 1)) else None),
                    cs_second_most_common_count =
                      (if length vcs > 1 then Some (snd (vcs ! 1)) else None) \<rparr>)"

subsection \<open>Tables\<close>

text \<open>
  A \<open>DataFrame\<close> is the list of its labelled columns, in column order. A column is
  numeric or of another (object) dtype; a missing entry is \<open>None\<close>. A well-formed frame
  has pairwise distinct labels and columns of one length. With distinct labels
  \<open>df[column]\<close> is the one column of that label, which \<open>getitem\<close> looks up; a frame
  with a repeated label, where \<open>df[column]\<close> is a frame itself, is outside the model.
\<close>

datatype 'a column = NumCol "real option list" | ObjCol "'a option list"

datatype dtype = NumericDtype | ObjectDtype

datatype 'a cell = NumCell "real option" | ObjCell "'a option"

type_synonym 'a dataframe = "(string \<times> 'a column) list"

definition col_len :: "'a column \<Rightarrow> nat" where
  "col_len c = (case c of NumCol xs \<Rightarrow> length xs | ObjCol xs \<Rightarrow> length xs)"

definition nrows :: "'a dataframe \<Rightarrow> nat" where
  "nrows df = (case df of [] \<Rightarrow> 0 | lc # _ \<Rightarrow> col_len (snd lc))"

definition wf_dataframe :: "'a dataframe \<Rightarrow> bool" where
  "wf_dataframe df \<longleftrightarrow>
     distinct (map fst df) \<and> list_all (\<lambda>lc. col_len (snd lc) = nrows df) df"

definition columns :: "'a dataframe \<Rightarrow> string list" where
  "columns df = map fst df"

definition getitem :: "'a dataframe \<Rightarrow> string \<Rightarrow> error + 'a column" where
  "getitem df column = (case map_of df column of None \<Rightarrow> Inl KeyError | Some c \<Rightarrow> Inr c)"

fun dropna :: "'v option list \<Rightarrow> 'v list" where
  "dropna [] = []"
| "dropna (None # xs) = dropna xs"
| "dropna (Some x # xs) = x # dropna xs"

definition isnull_sum :: "'v option list \<Rightarrow> nat" where
  "isnull_sum xs = length (filter (\<lambda>x. x = None) xs)"

definition col_dtype :: "'a column \<Rightarrow> dtype" where
  "col_dtype c = (case c of NumCol _ \<Rightarrow> NumericDtype | ObjCol _ \<Rightarrow> ObjectDtype)"

definition is_numeric_dtype :: "'a column \<Rightarrow> bool" where
  "is_numeric_dtype c \<longleftrightarrow> col_dtype c = NumericDtype"

definition col_nunique :: "'a column \<Rightarrow> nat" where
  "col_nunique c = (case c of NumCol xs \<Rightarrow> nunique (dropna xs) | ObjCol xs \<Rightarrow> nunique (dropna xs))"

definition col_isnull_sum :: "'a column \<Rightarrow> nat" where
  "col_isnull_sum c = (case c of NumCol xs \<Rightarrow> isnull_sum xs | ObjCol xs \<Rightarrow> isnull_sum xs)"

text \<open>
  \<open>df.duplicated()\<close> marks every row that equals an earlier row (missing entries compare
  equal); \<open>.sum()\<close> counts the marks.
\<close>

definition cell_at :: "'a column \<Rightarrow> nat \<Rightarrow> 'a cell" where
  "cell_at c i = (case c of NumCol xs \<Rightarrow> NumCell (xs ! i) | ObjCol xs \<Rightarrow> ObjCell (xs ! i))"

definition row_at :: "'a dataframe \<Rightarrow> nat \<Rightarrow> 'a cell list" where
  "row_at df i = map (\<lambda>lc. cell_at (snd lc) i) df"

definition duplicated :: "'a dataframe \<Rightarrow> bool list" where
  "duplicated df = map (\<lambda>i. row_at df i \<in> set (map (row_at df) [0..<i])) [0..<nrows df]"

definition duplicated_sum :: "'a dataframe \<Rightarrow> nat" where
  "duplicated_sum df = length (filter (\<lambda>b. b) (duplicated df))"

subsection \<open>Rounding and the missing percentage\<close>

text \<open>
  \<open>missing_count / value_count * 100\<close> converts the two integers to doubles, divides and
  multiplies in binary64; a zero divisor does not raise but yields NaN or an infinity.
  \<open>round(x, 2)\<close> on a numpy float multiplies by \<open>10\<^sup>2\<close>, rounds to the nearest integer
  and divides by \<open>10\<^sup>2\<close>, each step a float operation.
\<close>

definition py_round :: "float64 \<Rightarrow> nat \<Rightarrow> float64" where
  "py_round x ndigits = fdiv (frint (fmul x (Finite (10 ^ ndigits)))) (Finite (10 ^ ndigits))"

definition np_true_divide :: "nat \<Rightarrow> nat \<Rightarrow> float64" where
  "np_true_divide a b = fdiv (round64 (real a)) (round64 (real b))"

definition missing_percentage_of :: "nat \<Rightarrow> nat \<Rightarrow> float64" where
  "missing_percentage_of missing_count value_count =
     py_round (fmul (np_true_divide missing_count value_count) (Finite 100)) 2"

subsection \<open>Table overview\<close>

record overview_row =
  ov_column :: string
  ov_types :: dtype
  ov_unique_data :: nat
  ov_missing_value :: nat
  ov_missing_percentage :: float64
  ov_duplicated :: nat

definition overview_column :: "'a dataframe \<Rightarrow> string \<Rightarrow> error + overview_row" where
  "overview_column df column =
     (case getitem df column of
        Inl e \<Rightarrow> Inl e
      | Inr col \<Rightarrow>
          (let types = col_dtype col;
               unique_data = col_nunique col;
               missing_count = col_isnull_sum col;
               value_count = col_len col;
               missing_percentage = missing_percentage_of missing_count value_count;
               duplicated = duplicated_sum df
           in Inr \<lparr> ov_column = column,
                      ov_types = types,
                      ov_unique_data = unique_data,
                      ov_missing_value = missing_count,
                      ov_missing_percentage = missing_percentage,
                      ov_duplicated = duplicated \<rparr>))"

fun overview_loop ::
  "'a dataframe \<Rightarrow> string list \<Rightarrow> overview_row list \<Rightarrow> error + overview_row list" where
  "overview_loop df [] df_overview = Inr df_overview"
| "overview_loop df (column # rest) df_overview =
     (case overview_column df column of
        Inl e \<Rightarrow> Inl e
      | Inr row \<Rightarrow> overview_loop df rest (df_overview @ [row]))"

definition overview_df :: "'a dataframe \<Rightarrow> error + overview_row list" where
  "overview_df df = overview_loop df (columns df) []"

subsection \<open>Unified analysis\<close>

datatype 'a stats = NumStats numeric_stats | CatStats "'a categorical_stats"

record 'a combined_stats =
  cb_column :: string
  cb_n :: nat
  cb_min :: "real option"
  cb_max :: "real option"
  cb_mean :: "real option"
  cb_std :: "real option"
  cb_median :: "real option"
  cb_q1 :: "real option"
  cb_q3 :: "real option"
  cb_iqr :: "real option"
  cb_skewness :: "real option"
  cb_kurtosis :: "real option"
  cb_lower_fence :: "real option"
  cb_upper_fence :: "real option"
  cb_n_outliers :: "nat option"
  cb_n_unique :: nat
  cb_mode :: "'a option"
  cb_mode_count :: "nat option"
  cb_second_most_common :: "'a option"
  cb_second_most_common_count :: "nat option"
  cb_unique_data :: nat
  cb_missing_value :: nat
  cb_missing_percentage :: float64
  cb_duplicated :: nat

text \<open>
  \<open>stats.get(key)\<close> and \<open>stats.get(key, default)\<close> on the dictionary of either kind:
  a key of the other kind is absent.
\<close>

definition get_num :: "'a stats \<Rightarrow> (numeric_stats \<Rightarrow> 'b) \<Rightarrow> 'b option" where
  "get_num st field = (case st of NumStats s \<Rightarrow> Some (field s) | CatStats _ \<Rightarrow> None)"

definition get_num_opt :: "'a stats \<Rightarrow> (numeric_stats \<Rightarrow> 'b option) \<Rightarrow> 'b option" where
  "get_num_opt st field = (case st of NumStats s \<Rightarrow> field s | CatStats _ \<Rightarrow> None)"

definition get_cat :: "'a stats \<Rightarrow> ('a categorical_stats \<Rightarrow> 'b) \<Rightarrow> 'b option" where
  "get_cat st field = (case st of NumStats _ \<Rightarrow> None | CatStats s \<Rightarrow> Some (field s))"

definition get_cat_opt :: "'a stats \<Rightarrow> ('a categorical_stats \<Rightarrow> 'b option) \<Rightarrow> 'b option" where
  "get_cat_opt st field = (case st of NumStats _ \<Rightarrow> None | CatStats s \<Rightarrow> field s)"

definition get_n :: "'a stats \<Rightarrow> nat \<Rightarrow> nat" where
  "get_n st dflt = (case st of NumStats s \<Rightarrow> ns_n s | CatStats s \<Rightarrow> cs_n s)"

definition get_n_unique :: "'a stats \<Rightarrow> nat \<Rightarrow> nat" where
  "get_n_unique st dflt = (case st of NumStats _ \<Rightarrow> dflt | CatStats s \<Rightarrow> cs_n_unique s)"

definition column_stats :: "string \<Rightarrow> 'a column \<Rightarrow> error + 'a stats" where
  "column_stats column col =
     (case col of
        NumCol xs \<Rightarrow>
          (case descriptive_stats_numeric \<lparr> sname = column, svalues = dropna xs \<rparr>
                  tukey_factor_default of
             Inl e \<Rightarrow> Inl e
           | Inr s \<Rightarrow> Inr (NumStats s))
      | ObjCol xs \<Rightarrow>
          (case descriptive_stats_categorical \<lparr> sname = column, svalues = dropna xs \<rparr> of
             Inl e \<Rightarrow> Inl e
           | Inr s \<Rightarrow> Inr (CatStats s)))"

definition analyze_column :: "'a dataframe \<Rightarrow> string \<Rightarrow> error + 'a combined_stats" where
  "analyze_column df column =
     (case getitem df column of
        Inl e \<Rightarrow> Inl e
      | Inr col \<Rightarrow>
          (case column_stats column col of
             Inl e \<Rightarrow> Inl e
           | Inr st \<Rightarrow>
               (let unique_data = col_nunique col;
                    missing_count = col_isnull_sum col;
                    value_count = col_len col;
                    missing_percentage = missing_percentage_of missing_count value_count;
                    duplicated = duplicated_sum df
                in Inr \<lparr> cb_column = column,
                           cb_n = get_n st value_count,
                           cb_min = get_num st ns_min,
                           cb_max = get_num st ns_max,
                           cb_mean = get_num st ns_mean,
                           cb_std = get_num_opt st ns_std,
                           cb_median = get_num st ns_median,
                           cb_q1 = get_num st ns_q1,
                           cb_q3 = get_num st ns_q3,
                           cb_iqr = get_num st ns_iqr,
                           cb_skewness = get_num_opt st ns_skewness,
                           cb_kurtosis = get_num_opt st ns_kurtosis,
                           cb_lower_fence = get_num st ns_lower_fence,
                           cb_upper_fence = get_num st ns_upper_fence,
                           cb_n_outliers = get_num st ns_n_outliers,
                           cb_n_unique = get_n_unique st unique_data,
                           cb_mode = get_cat st cs_mode,
                           cb_mode_count = get_cat st cs_mode_count,
                           cb_second_most_common = get_cat_opt st cs_second_most_common,
                           cb_second_most_common_count =
                             get_cat_opt st cs_second_most_common_count,
                           cb_unique_data = unique_data,
                           cb_missing_value = missing_count,
                           cb_missing_percentage = missing_percentage,
                           cb_duplicated = duplicated \<rparr>)))"

fun analyze_loop ::
  "'a dataframe \<Rightarrow> string list \<Rightarrow> 'a combined_stats list \<Rightarrow> error + 'a combined_stats list" where
  "analyze_loop df [] results = Inr results"
| "analyze_loop df (column # rest) results =
     (case analyze_column df column of
        Inl e \<Rightarrow> Inl e
      | Inr combined \<Rightarrow> analyze_loop df rest (results @ [combined]))"

definition analyze_dataset :: "'a dataframe \<Rightarrow> error + 'a combined_stats list" where
  "analyze_dataset df = analyze_loop df (columns df) []"

subsection \<open>Auxiliary notions for the proofs\<close>

text \<open>Three small frames on which the table functions are evaluated.\<close>

definition example_frame :: "string dataframe" where
  "example_frame =
     [(''x'', NumCol [Some 1, None, Some 3]), (''y'', ObjCol [Some ''a'', None, None])]"

definition example_frame_quarters :: "string dataframe" where
  "example_frame_quarters =
     [(''x'', NumCol [Some 1, None, Some 3, Some 4]),
      (''y'', ObjCol [Some ''a'', None, None, Some ''b''])]"

definition example_frame_missing :: "string dataframe" where
  "example_frame_missing =
     [(''x'', NumCol [Some 1, Some 2]), (''y'', ObjCol [None, None])]"

text \<open>The interpolation step of \<open>percentile\<close> on an already sorted array.\<close>

definition interp :: "real list \<Rightarrow> real \<Rightarrow> real" where
  "interp arr v =
     lerp (arr ! nat \<lfloor>v\<rfloor>) (arr ! min (nat \<lfloor>v\<rfloor> + 1) (length arr - 1))
          (v - real (nat \<lfloor>v\<rfloor>))"

section \<open>Rounding to binary64\<close>

subsection \<open>Rounding to an integer\<close>

lemma rint_cases: "rint x = of_int \<lfloor>x\<rfloor> \<or> (rint x = of_int (\<lfloor>x\<rfloor> + 1) \<and> of_int \<lfloor>x\<rfloor> < x)"
  by (auto simp: rint_def Let_def)

lemma rint_bounds:
  assumes "of_int a \<le> x" "x \<le> of_int b"
  shows "of_int a \<le> rint x" "rint x \<le> of_int b"
proof -
  have fa: "a \<le> \<lfloor>x\<rfloor>" using assms(1) by (simp add: le_floor_iff)
  have fb: "\<lfloor>x\<rfloor> \<le> b" using assms(2) by (simp add: floor_le_iff)
  have fb': "\<lfloor>x\<rfloor> + 1 \<le> b" if "of_int \<lfloor>x\<rfloor> < x"
  proof -
    have "(of_int \<lfloor>x\<rfloor> :: real) < of_int b" using that assms(2) by linarith
    then have "\<lfloor>x\<rfloor> < b" by (simp only: of_int_less_iff)
    then show ?thesis by simp
  qed
  from rint_cases[of x] show "of_int a \<le> rint x"
  proof
    assume "rint x = of_int \<lfloor>x\<rfloor>"
    then show ?thesis using fa by simp
  next
    assume "rint x = of_int (\<lfloor>x\<rfloor> + 1) \<and> of_int \<lfloor>x\<rfloor> < x"
    then have "rint x = of_int (\<lfloor>x\<rfloor> + 1)" by simp
    moreover have "a \<le> \<lfloor>x\<rfloor> + 1" using fa by simp
    ultimately show ?thesis by (simp only: of_int_le_iff)
  qed
  from rint_cases[of x] show "rint x \<le> of_int b"
  proof
    assume "rint x = of_int \<lfloor>x\<rfloor>"
    then show ?thesis using fb by simp
  next
    assume r: "rint x = of_int (\<lfloor>x\<rfloor> + 1) \<and> of_int \<lfloor>x\<rfloor> < x"
    then have "\<lfloor>x\<rfloor> + 1 \<le> b" using fb' by simp
    then show ?thesis using r by (simp only: of_int_le_iff)
  qed
qed

lemma rint_of_int: "rint (of_int k) = of_int k"
  by (simp add: rint_def)

lemma rint_Ints: "x \<in> \<int> \<Longrightarrow> rint x = x"
  by (auto elim!: Ints_cases simp: rint_of_int)

subsection \<open>The binade of a number\<close>

lemma binade_upper:
  assumes "0 < x" "x < 2 ^ n"
  shows "max \<lfloor>log 2 x\<rfloor> (- 1022) < int n"
proof -
  have "log 2 x < log 2 (2 ^ n)" using assms by (intro log_less) simp_all
  then have "log 2 x < real n" by simp
  then have "\<lfloor>log 2 x\<rfloor> < int n" by (simp add: floor_less_iff)
  then show ?thesis by simp
qed

lemma ulp_inverse:
  assumes "e \<le> 52"
  shows "(x::real) / (2 powi (e - 52)) = x * 2 ^ nat (52 - e)"
proof -
  have "(2::real) powi (e - 52) = inverse (2 powi (52 - e))"
    using power_int_minus[of "2::real" "52 - e"] by simp
  also have "(2::real) powi (52 - e) = 2 ^ nat (52 - e)"
    using assms by (simp add: power_int_def)
  finally show ?thesis by (simp add: divide_inverse)
qed

lemma ulp_pos: "0 < (2::real) powi k"
  by simp

text \<open>A multiple of the unit of its binade that does not overflow is a float.\<close>

lemma round64_grid:
  assumes "x \<noteq> 0"
    and "x / (2 powi (max \<lfloor>log 2 \<bar>x\<bar>\<rfloor> (- 1022) - 52)) \<in> \<int>"
    and "\<bar>x\<bar> < 2 ^ 1024"
  shows "round64 x = Finite x"
  using assms by (simp add: round64_def Let_def rint_Ints)

lemma round64_range:
  assumes "0 \<le> x" "x \<le> real N" "N < 2 ^ 53"
  shows "\<exists>y. round64 x = Finite y \<and> 0 \<le> y \<and> y \<le> real N"
proof (cases "x = 0")
  case True
  then show ?thesis by (simp add: round64_def)
next
  case False
  then have pos: "0 < x" using assms(1) by simp
  define e where "e = max \<lfloor>log 2 \<bar>x\<bar>\<rfloor> (- 1022)"
  define u :: real where "u = 2 powi (e - 52)"
  define k where "k = nat (52 - e)"
  have "x < 2 ^ 53" using assms(2,3) by (simp add: less_le_trans[OF _ less_imp_le] order_le_less_trans)
  then have e52: "e \<le> 52" using binade_upper[OF pos, of 53] pos by (simp add: e_def)
  have u: "0 < u" by (simp add: u_def)
  have div: "z / u = z * 2 ^ k" for z :: real
    unfolding u_def k_def by (rule ulp_inverse[OF e52])
  have "x / u \<le> real N * 2 ^ k" using assms(2) by (simp add: div)
  also have "real N * 2 ^ k = of_int (int N * 2 ^ k)" by simp
  finally have up: "x / u \<le> of_int (int N * 2 ^ k)" .
  have lo: "of_int 0 \<le> x / u" using pos u by simp
  have r0: "0 \<le> rint (x / u)" using rint_bounds(1)[OF lo up] by simp
  have r1: "rint (x / u) \<le> real N * 2 ^ k" using rint_bounds(2)[OF lo up] by simp
  have y0: "0 \<le> rint (x / u) * u" using r0 u by simp
  have "rint (x / u) * u \<le> (real N * 2 ^ k) * u" using r1 u by (simp add: mult_right_mono)
  also have "(real N * 2 ^ k) * u = real N"
    using div[of "real N * 2 ^ k * u"] u by simp
  finally have y1: "rint (x / u) * u \<le> real N" .
  have "real N < 2 ^ 1024"
  proof -
    have "real N < 2 ^ 53" using assms(3) by (metis of_nat_less_iff of_nat_numeral of_nat_power)
    also have "(2::real) ^ 53 \<le> 2 ^ 1024" by (rule power_increasing) simp_all
    finally show ?thesis .
  qed
  then have fin: "\<not> 2 ^ 1024 \<le> \<bar>rint (x / u) * u\<bar>" using y0 y1 by simp
  have "round64 x = Finite (rint (x / u) * u)"
    using False fin unfolding round64_def Let_def e_def[symmetric] u_def[symmetric] by simp
  then show ?thesis using y0 y1 by simp
qed

lemma round64_of_nat:
  assumes "m < 2 ^ 53"
  shows "round64 (real m) = Finite (real m)"
proof (cases "m = 0")
  case True
  then show ?thesis by (simp add: round64_def)
next
  case False
  then have pos: "0 < real m" by simp
  define e where "e = max \<lfloor>log 2 \<bar>real m\<bar>\<rfloor> (- 1022)"
  have lt: "real m < 2 ^ 53" using assms by (metis of_nat_less_iff of_nat_numeral of_nat_power)
  then have e52: "e \<le> 52" using binade_upper[OF pos, of 53] by (simp add: e_def)
  have "real m / (2 powi (e - 52)) = of_int (int m * 2 ^ nat (52 - e))"
    by (simp add: ulp_inverse[OF e52])
  then have g: "real m / (2 powi (e - 52)) \<in> \<int>" by (simp only: Ints_of_int)
  have "(2::real) ^ 53 \<le> 2 ^ 1024" by (rule power_increasing) simp_all
  then have "\<bar>real m\<bar> < 2 ^ 1024" using lt by simp
  then show ?thesis
    using round64_grid[of "real m"] False g by (simp add: e_def)
qed

subsection \<open>Evaluation of the rounding\<close>

lemma floor_log2_binade:
  assumes "2 powi n \<le> x" "x < 2 powi (n + 1)"
  shows "\<lfloor>log 2 x\<rfloor> = n"
proof -
  have pos: "0 < x" using assms(1) ulp_pos[of n] by linarith
  have a: "2 powr real_of_int n = (2::real) powi n"
    by (rule powr_real_of_int') simp_all
  have "2 powr real_of_int (n + 1) = (2::real) powi (n + 1)"
    by (rule powr_real_of_int') simp_all
  then have b: "2 powr (real_of_int n + 1) = (2::real) powi (n + 1)" by simp
  have "2 powr real_of_int n \<le> x \<and> x < 2 powr (real_of_int n + 1)"
    unfolding a b using assms by simp
  then show ?thesis using floor_log_eq_powr_iff[of x 2 n] pos by simp
qed

lemma round64_binade:
  assumes "2 powi n \<le> \<bar>x\<bar>" "\<bar>x\<bar> < 2 powi (n + 1)" "- 1022 \<le> n"
  shows "round64 x =
           (if 2 ^ 1024 \<le> \<bar>rint (x / 2 powi (n - 52)) * 2 powi (n - 52)\<bar>
            then (if 0 < x then PosInf else NegInf)
            else Finite (rint (x / 2 powi (n - 52)) * 2 powi (n - 52)))"
proof -
  have "x \<noteq> 0"
  proof
    assume "x = 0"
    then have "(2::real) powi n \<le> 0" using assms(1) by simp
    moreover have "0 < (2::real) powi n" by (rule ulp_pos)
    ultimately show False by linarith
  qed
  moreover have "max \<lfloor>log 2 \<bar>x\<bar>\<rfloor> (- 1022) = n"
    using floor_log2_binade[OF assms(1,2)] assms(3) by simp
  ultimately show ?thesis by (simp add: round64_def Let_def)
qed

lemma round64_dyadic:
  assumes "x * 2 ^ k \<in> \<int>" "\<bar>x\<bar> * 2 ^ k < 2 ^ 53" "k \<le> 1074"
  shows "round64 x = Finite x"
proof (cases "x = 0")
  case True
  then show ?thesis by (simp add: round64_def)
next
  case False
  define e where "e = max \<lfloor>log 2 \<bar>x\<bar>\<rfloor> (- 1022)"
  have pos: "0 < \<bar>x\<bar>" using False by simp
  have lt: "\<bar>x\<bar> < 2 ^ 53 / 2 ^ k" using assms(2) by (simp add: pos_less_divide_eq)
  have "log 2 \<bar>x\<bar> < log 2 (2 ^ 53 / 2 ^ k)" using lt pos by (intro log_less) simp_all
  also have "log 2 (2 ^ 53 / 2 ^ k) = 53 - real k"
    using log_pow_cancel[of 2 53] by (simp add: log_divide)
  finally have "log 2 \<bar>x\<bar> < of_int (53 - int k)" by simp
  then have "\<lfloor>log 2 \<bar>x\<bar>\<rfloor> < 53 - int k" by (simp only: floor_less_iff)
  then have ek: "e \<le> 52 - int k" using assms(3) by (simp add: e_def)
  then have e52: "e \<le> 52" by simp
  have "nat (52 - e) = k + nat (52 - e - int k)" using ek by simp
  then have "(2::real) ^ nat (52 - e) = 2 ^ k * 2 ^ nat (52 - e - int k)"
    by (simp add: power_add)
  then have "x / (2 powi (e - 52)) = (x * 2 ^ k) * of_int (2 ^ nat (52 - e - int k))"
    by (simp add: ulp_inverse[OF e52])
  moreover have "(x * 2 ^ k) * of_int (2 ^ nat (52 - e - int k)) \<in> \<int>"
    using assms(1) by (rule Ints_mult) (rule Ints_of_int)
  ultimately have g: "x / (2 powi (e - 52)) \<in> \<int>" by simp
  have "\<bar>x\<bar> * 1 \<le> \<bar>x\<bar> * 2 ^ k" by (intro mult_left_mono) simp_all
  then have "\<bar>x\<bar> < 2 ^ 53" using assms(2) by simp
  moreover have "(2::real) ^ 53 \<le> 2 ^ 1024" by (rule power_increasing) simp_all
  ultimately have "\<bar>x\<bar> < 2 ^ 1024" by simp
  then show ?thesis using round64_grid[of x] False g by (simp add: e_def)
qed

lemma round64_small: "x * 2 ^ 20 \<in> \<int> \<Longrightarrow> \<bar>x\<bar> < 2 ^ 30 \<Longrightarrow> round64 x = Finite x"
proof -
  assume a: "x * 2 ^ 20 \<in> \<int>" "\<bar>x\<bar> < 2 ^ 30"
  have "\<bar>x\<bar> * 2 ^ 20 < 2 ^ 30 * 2 ^ 20" using a(2) by (intro mult_strict_right_mono) simp_all
  then have "\<bar>x\<bar> * 2 ^ 20 < 2 ^ 53" by simp
  from round64_dyadic[OF a(1) this] show ?thesis by simp
qed


section \<open>Numeric statistics\<close>

subsection \<open>Monotonicity of the percentile\<close>

lemma lerp_bounds:
  assumes "a \<le> b" "0 \<le> t" "t \<le> 1"
  shows "a \<le> lerp a b t" "lerp a b t \<le> b"
proof -
  have "0 \<le> (b - a) * t" using assms by simp
  then show "a \<le> lerp a b t" by (simp add: lerp_def)
  have "(b - a) * t \<le> (b - a) * 1"
    using assms by (intro mult_left_mono) simp_all
  then show "lerp a b t \<le> b" by (simp add: lerp_def)
qed

lemma lerp_mono:
  assumes "a \<le> b" "t \<le> t'"
  shows "lerp a b t \<le> lerp a b t'"
proof -
  have "(b - a) * t \<le> (b - a) * t'"
    using assms by (intro mult_left_mono) simp_all
  then show ?thesis by (simp add: lerp_def)
qed

lemma percentile_interp:
  "percentile a p = interp (sort a) (real (length a - 1) * (p / 100))"
  by (simp add: percentile_def interp_def Let_def)

lemma floor_index:
  assumes "0 \<le> v" "v \<le> real (length arr - 1)"
  shows "nat \<lfloor>v\<rfloor> \<le> length arr - 1" "0 \<le> v - real (nat \<lfloor>v\<rfloor>)" "v - real (nat \<lfloor>v\<rfloor>) < 1"
proof -
  have "\<lfloor>v\<rfloor> \<le> int (length arr - 1)" using assms(2) by (simp add: floor_le_iff)
  then show "nat \<lfloor>v\<rfloor> \<le> length arr - 1" by simp
  have fl: "0 \<le> \<lfloor>v\<rfloor>" using assms(1) by simp
  then have eq: "real (nat \<lfloor>v\<rfloor>) = of_int \<lfloor>v\<rfloor>" by simp
  show "0 \<le> v - real (nat \<lfloor>v\<rfloor>)" unfolding eq by simp
  show "v - real (nat \<lfloor>v\<rfloor>) < 1" unfolding eq by linarith
qed

lemma interp_bounds:
  assumes "sorted arr" "arr \<noteq> []" "0 \<le> v" "v \<le> real (length arr - 1)"
  shows "arr ! nat \<lfloor>v\<rfloor> \<le> interp arr v"
    and "interp arr v \<le> arr ! min (nat \<lfloor>v\<rfloor> + 1) (length arr - 1)"
proof -
  let ?lo = "nat \<lfloor>v\<rfloor>" and ?hi = "min (nat \<lfloor>v\<rfloor> + 1) (length arr - 1)"
  have lo: "?lo \<le> length arr - 1" using floor_index(1)[OF assms(3,4)] .
  have "?lo \<le> ?hi" using lo by simp
  moreover have "?hi < length arr" using assms(2) by (cases arr) simp_all
  ultimately have le: "arr ! ?lo \<le> arr ! ?hi"
    using assms(1) by (simp add: sorted_nth_mono)
  have g: "0 \<le> v - real ?lo" "v - real ?lo \<le> 1"
    using floor_index(2,3)[OF assms(3,4)] by simp_all
  show "arr ! ?lo \<le> interp arr v"
    unfolding interp_def using lerp_bounds(1)[OF le g] .
  show "interp arr v \<le> arr ! ?hi"
    unfolding interp_def using lerp_bounds(2)[OF le g] .
qed

lemma interp_mono:
  assumes srt: "sorted arr" and ne: "arr \<noteq> []"
    and v0: "0 \<le> v" and vv: "v \<le> v'" and vn: "v' \<le> real (length arr - 1)"
  shows "interp arr v \<le> interp arr v'"
proof -
  let ?lo = "nat \<lfloor>v\<rfloor>" and ?lo' = "nat \<lfloor>v'\<rfloor>"
  let ?hi = "min (?lo + 1) (length arr - 1)"
  have v0': "0 \<le> v'" and vn': "v \<le> real (length arr - 1)" using v0 vv vn by simp_all
  have lolo: "?lo \<le> ?lo'" using vv by (simp add: floor_mono nat_mono)
  have lo'n: "?lo' \<le> length arr - 1" using floor_index(1)[OF v0' vn] .
  show ?thesis
  proof (cases "?lo = ?lo'")
    case True
    have "?lo \<le> ?hi" using lo'n True by simp
    moreover have "?hi < length arr" using ne by (cases arr) simp_all
    ultimately have le: "arr ! ?lo \<le> arr ! ?hi"
      using srt by (simp add: sorted_nth_mono)
    have "v - real ?lo \<le> v' - real ?lo" using vv by simp
    from lerp_mono[OF le this] show ?thesis
      unfolding interp_def using True by simp
  next
    case False
    then have "?lo + 1 \<le> ?lo'" using lolo by simp
    then have hi_le: "?hi \<le> ?lo'" by simp
    have "?lo' < length arr" using lo'n ne by (cases arr) simp_all
    then have "arr ! ?hi \<le> arr ! ?lo'"
      using srt hi_le by (simp add: sorted_nth_mono)
    moreover have "interp arr v \<le> arr ! ?hi"
      using interp_bounds(2)[OF srt ne v0 vn'] .
    moreover have "arr ! ?lo' \<le> interp arr v'"
      using interp_bounds(1)[OF srt ne v0' vn] .
    ultimately show ?thesis by linarith
  qed
qed

lemma percentile_mono:
  assumes "a \<noteq> []" "0 \<le> p" "p \<le> p'" "p' \<le> 100"
  shows "percentile a p \<le> percentile a p'"
proof -
  let ?n = "real (length a - 1)"
  have len: "length (sort a) = length a" by simp
  have ne: "sort a \<noteq> []" using assms(1) by (metis len length_0_conv)
  have a1: "0 \<le> ?n * (p / 100)" using assms(2) by simp
  have a2: "?n * (p / 100) \<le> ?n * (p' / 100)"
    using assms(3) by (intro mult_left_mono) simp_all
  have "?n * (p' / 100) \<le> ?n * 1"
    using assms(4) by (intro mult_left_mono) simp_all
  then have a3: "?n * (p' / 100) \<le> real (length (sort a) - 1)" by simp
  have "interp (sort a) (?n * (p / 100)) \<le> interp (sort a) (?n * (p' / 100))"
    by (rule interp_mono[OF sorted_sort ne a1 a2 a3])
  then show ?thesis by (simp add: percentile_interp)
qed


subsection \<open>The record of a non-empty column\<close>

lemma descriptive_stats_numeric_Inr:
  assumes "svalues data \<noteq> []"
  shows "descriptive_stats_numeric data k =
    Inr \<lparr> ns_column = sname data,
           ns_n = length (svalues data),
           ns_min = Min (set (svalues data)),
           ns_max = Max (set (svalues data)),
           ns_mean = np_mean (svalues data),
           ns_std = map_option sqrt (np_var_ddof1 (svalues data)),
           ns_median = percentile (svalues data) 50,
           ns_q1 = percentile (svalues data) 25,
           ns_q3 = percentile (svalues data) 75,
           ns_iqr = percentile (svalues data) 75 - percentile (svalues data) 25,
           ns_skewness = skew (svalues data),
           ns_kurtosis = kurtosis_fisher (svalues data),
           ns_lower_fence = percentile (svalues data) 25
              - k * (percentile (svalues data) 75 - percentile (svalues data) 25),
           ns_upper_fence = percentile (svalues data) 75
              + k * (percentile (svalues data) 75 - percentile (svalues data) 25),
           ns_n_outliers = length (filter (\<lambda>v.
              v < percentile (svalues data) 25
                    - k * (percentile (svalues data) 75 - percentile (svalues data) 25)
              \<or> v > percentile (svalues data) 75
                    + k * (percentile (svalues data) 75 - percentile (svalues data) 25))
              (svalues data)) \<rparr>"
  using assms by (simp add: descriptive_stats_numeric_def describe_def Let_def)

lemma descriptive_stats_numeric_empty:
  "svalues data = [] \<Longrightarrow> descriptive_stats_numeric data k = Inl ValueError"
  by (simp add: descriptive_stats_numeric_def describe_def)

lemma quartiles_ordered:
  assumes "a \<noteq> []"
  shows "percentile a 25 \<le> percentile a 50" "percentile a 50 \<le> percentile a 75"
  using percentile_mono[OF assms, of 25 50] percentile_mono[OF assms, of 50 75] by simp_all

lemma percentile_example_25: "percentile [1, 2, 3, 4, 5, 100] 25 = 9 / 4"
  by (simp add: percentile_def lerp_def Let_def)

lemma percentile_example_50: "percentile [1, 2, 3, 4, 5, 100] 50 = 7 / 2"
  by (simp add: percentile_def lerp_def Let_def)

lemma percentile_example_75: "percentile [1, 2, 3, 4, 5, 100] 75 = 19 / 4"
  by (simp add: percentile_def lerp_def Let_def)

lemmas percentile_examples =
  percentile_example_25 percentile_example_50 percentile_example_75

subsection \<open>The outlier count\<close>



subsection \<open>The binary64 reading on three columns\<close>

text \<open>
  The column of Claim C9, on which every operation is exact; a column of two finite
  values whose difference overflows; and the column \<open>[0.1, 0.2, 0.3, 0.4]\<close> (as
  doubles) with factor \<open>0.5\<close>, on which the operations round and exactly one value is an
  outlier.
\<close>

lemma round64_zero: "round64 0 = Finite 0"
  by (simp add: round64_def)


lemma percentile_f64_example:
  "percentile_f64 (map Finite [1, 2, 3, 4, 5, 100]) 25 = Finite (9 / 4)"
  "percentile_f64 (map Finite [1, 2, 3, 4, 5, 100]) 50 = Finite (7 / 2)"
  "percentile_f64 (map Finite [1, 2, 3, 4, 5, 100]) 75 = Finite (19 / 4)"
  by (simp_all add: percentile_f64_def fsort_def lerp_f64_def fsub_def Let_def
        round64_small round64_zero)

lemma numeric_rounding_example:
  "map_sum id (\<lambda>r. (nf_q1 r, nf_median r, nf_q3 r, nf_lower_fence r, nf_upper_fence r, nf_n_outliers r))
     (descriptive_stats_numeric_f64 desc
        \<lparr> sname = ''x'',
          svalues = [Finite (3602879701896397 / 2 ^ 55), Finite (3602879701896397 / 2 ^ 54),
                     Finite (5404319552844595 / 2 ^ 54), Finite (3602879701896397 / 2 ^ 53)] \<rparr>
        (Finite (1 / 2)))
   = Inr (Finite (6305039478318695 / 2 ^ 55), Finite (1 / 2 ^ 2), Finite (5854679515581645 / 2 ^ 54),
          Finite (7205759403792795 / 2 ^ 56), Finite (3602879701896397 / 2 ^ 53), 1)"
proof -
  have a1: "round64 (3602879701896397 / 2 ^ 54 - 3602879701896397 / 2 ^ 55) = Finite (3602879701896397 / 2 ^ 55)"
    by (subst round64_binade[of "-4"]) (simp_all add: rint_def Let_def)
  have a2: "round64 (3602879701896397 / 2 ^ 55 * (1 / 4)) = Finite (3602879701896397 / 2 ^ 57)"
    by (subst round64_binade[of "-6"]) (simp_all add: rint_def Let_def)
  have a3: "round64 (3602879701896397 / 2 ^ 54 - 3602879701896397 / 2 ^ 57) = Finite (6305039478318695 / 2 ^ 55)"
    by (subst round64_binade[of "-3"]) (simp_all add: rint_def Let_def)
  have b1: "round64 (5404319552844595 / 2 ^ 54 - 3602879701896397 / 2 ^ 54) = Finite (900719925474099 / 2 ^ 53)"
    by (subst round64_binade[of "-4"]) (simp_all add: rint_def Let_def)
  have b2: "round64 (900719925474099 / 2 ^ 53 * (1 / 2)) = Finite (900719925474099 / 2 ^ 54)"
    by (subst round64_binade[of "-5"]) (simp_all add: rint_def Let_def)
  have b3: "round64 (5404319552844595 / 2 ^ 54 - 900719925474099 / 2 ^ 54) = Finite (1 / 2 ^ 2)"
    by (subst round64_binade[of "-2"]) (simp_all add: rint_def Let_def)
  have c1: "round64 (3602879701896397 / 2 ^ 53 - 5404319552844595 / 2 ^ 54) = Finite (1801439850948199 / 2 ^ 54)"
    by (subst round64_binade[of "-4"]) (simp_all add: rint_def Let_def)
  have c2: "round64 (1801439850948199 / 2 ^ 54 * (1 / 4)) = Finite (1801439850948199 / 2 ^ 56)"
    by (subst round64_binade[of "-6"]) (simp_all add: rint_def Let_def)
  have c3: "round64 (5404319552844595 / 2 ^ 54 + 1801439850948199 / 2 ^ 56) = Finite (5854679515581645 / 2 ^ 54)"
    by (subst round64_binade[of "-2"]) (simp_all add: rint_def Let_def)
  have e1: "round64 (5854679515581645 / 2 ^ 54 - 6305039478318695 / 2 ^ 55) = Finite (5404319552844595 / 2 ^ 55)"
    by (subst round64_binade[of "-3"]) (simp_all add: rint_def Let_def)
  have e2: "round64 (1 / 2 * (5404319552844595 / 2 ^ 55)) = Finite (5404319552844595 / 2 ^ 56)"
    by (subst round64_binade[of "-4"]) (simp_all add: rint_def Let_def)
  have e3: "round64 (6305039478318695 / 2 ^ 55 - 5404319552844595 / 2 ^ 56) = Finite (7205759403792795 / 2 ^ 56)"
    by (subst round64_binade[of "-4"]) (simp_all add: rint_def Let_def)
  have e4: "round64 (5854679515581645 / 2 ^ 54 + 5404319552844595 / 2 ^ 56) = Finite (3602879701896397 / 2 ^ 53)"
    by (subst round64_binade[of "-2"]) (simp_all add: rint_def Let_def)
  show ?thesis
    using a1 a2 a3 b1 b2 b3 c1 c2 c3 e1 e2 e3 e4
    by (simp add: descriptive_stats_numeric_f64_def percentile_f64_def fsort_def lerp_f64_def
        fsub_def fgt_def Let_def round64_small round64_zero)
qed

lemma numeric_example_f64:
  "map_sum id (\<lambda>r. (nf_n r, nf_min r, nf_max r, nf_median r, nf_q1 r, nf_q3 r, nf_iqr r,
                     nf_lower_fence r, nf_upper_fence r, nf_n_outliers r))
     (descriptive_stats_numeric_f64 desc
        \<lparr> sname = ''x'', svalues = map Finite [1, 2, 3, 4, 5, 100] \<rparr>
        (Finite tukey_factor_default))
   = Inr (6, Finite 1, Finite 100, Finite 3.5, Finite 2.25, Finite 4.75, Finite 2.5,
          Finite (- 1.5), Finite 8.5, 1)"
  using percentile_f64_example
  by (simp add: descriptive_stats_numeric_f64_def tukey_factor_default_def Let_def fsub_def
      fgt_def np_min_def np_max_def fsort_def round64_small)

text \<open>
  In the binary64 reading too the count is the number of positions strictly outside the
  record's own fences, whatever the fences are.
\<close>

lemma numeric_outlier_count_f64:
  assumes "descriptive_stats_numeric_f64 desc data k = Inr r"
  shows "nf_n_outliers r =
           card {i. i < length (svalues data)
                    \<and> (flt (svalues data ! i) (nf_lower_fence r)
                        \<or> fgt (svalues data ! i) (nf_upper_fence r))}"
proof -
  have ne: "svalues data \<noteq> []"
    using assms by (auto simp: descriptive_stats_numeric_f64_def split: if_splits)
  have "nf_n_outliers r = length (filter (\<lambda>v. flt v (nf_lower_fence r) \<or> fgt v (nf_upper_fence r))
                                     (svalues data))"
    using assms ne by (auto simp: descriptive_stats_numeric_f64_def Let_def)
  then show ?thesis by (simp only: length_filter_conv_card)
qed

subsection \<open>Exactness of the binary64 reading on integer columns\<close>

lemma finsort_Finite:
  "finsort (Finite x) (map Finite ys) = map Finite (insort x ys)"
  by (induction ys) (auto simp: not_less)

lemma fsort_Finite: "fsort (map Finite xs) = map Finite (sort xs)"
  by (induction xs) (simp_all add: fsort_def sort_key_def finsort_Finite)

text \<open>Multiples of a quarter (or of a sixteenth) of moderate size are doubles.\<close>

lemma round64_quarters:
  assumes "x * 4 \<in> \<int>" "\<bar>x\<bar> \<le> 2 ^ 40"
  shows "round64 x = Finite x"
proof -
  have "x * 2 ^ 2 \<in> \<int>" using assms(1) by simp
  moreover have "\<bar>x\<bar> * 2 ^ 2 < 2 ^ 53" using assms(2) by simp
  ultimately show ?thesis by (rule round64_dyadic) simp
qed

lemma round64_sixteenths:
  assumes "x * 16 \<in> \<int>" "\<bar>x\<bar> \<le> 2 ^ 46"
  shows "round64 x = Finite x"
proof -
  have "x * 2 ^ 4 \<in> \<int>" using assms(1) by simp
  moreover have "\<bar>x\<bar> * 2 ^ 4 < 2 ^ 53" using assms(2) by simp
  ultimately show ?thesis by (rule round64_dyadic) simp
qed

lemma lerp_f64_exact:
  assumes a: "a \<in> \<int>" "\<bar>a\<bar> \<le> 2 ^ 30" and b: "b \<in> \<int>" "\<bar>b\<bar> \<le> 2 ^ 30"
    and g: "g * 4 \<in> \<int>" "0 \<le> g" "g \<le> 1"
  shows "lerp_f64 (Finite a) (Finite b) (Finite g) = Finite (lerp a b g)"
    and "lerp a b g * 4 \<in> \<int>"
    and "\<bar>lerp a b g\<bar> \<le> 2 ^ 32"
proof -
  have d4: "(b - a) * 4 \<in> \<int>" using a(1) b(1) by (intro Ints_mult Ints_diff) simp_all
  have dB: "\<bar>b - a\<bar> \<le> 2 ^ 31" using a(2) b(2) by simp
  have d: "round64 (b - a) = Finite (b - a)"
    using d4 dB by (intro round64_quarters) simp_all
  have g1: "(1 - g) * 4 \<in> \<int>"
  proof -
    have "(1 - g) * 4 = 4 - g * 4" by simp
    then show ?thesis using g(1) by (simp only: Ints_diff Ints_numeral)
  qed
  have og: "round64 (1 - g) = Finite (1 - g)"
    using g1 g(2,3) by (intro round64_quarters) simp_all
  have p1: "(b - a) * (1 - g) * 4 \<in> \<int>"
  proof -
    have "(b - a) * (1 - g) * 4 = (b - a) * ((1 - g) * 4)" by simp
    then show ?thesis using a(1) b(1) g1 by (simp only: Ints_mult Ints_diff)
  qed
  have p1B: "\<bar>(b - a) * (1 - g)\<bar> \<le> 2 ^ 31"
  proof -
    have "\<bar>(b - a) * (1 - g)\<bar> = \<bar>b - a\<bar> * \<bar>1 - g\<bar>" by (rule abs_mult)
    also have "\<dots> \<le> 2 ^ 31 * 1" using dB g(2,3) by (intro mult_mono) simp_all
    finally show ?thesis by simp
  qed
  have m1: "round64 ((b - a) * (1 - g)) = Finite ((b - a) * (1 - g))"
    using p1 p1B by (intro round64_quarters) simp_all
  have p2: "(b - a) * g * 4 \<in> \<int>"
  proof -
    have "(b - a) * g * 4 = (b - a) * (g * 4)" by simp
    then show ?thesis using a(1) b(1) g(1) by (simp only: Ints_mult Ints_diff)
  qed
  have p2B: "\<bar>(b - a) * g\<bar> \<le> 2 ^ 31"
  proof -
    have "\<bar>(b - a) * g\<bar> = \<bar>b - a\<bar> * \<bar>g\<bar>" by (rule abs_mult)
    also have "\<dots> \<le> 2 ^ 31 * 1" using dB g(2,3) by (intro mult_mono) simp_all
    finally show ?thesis by simp
  qed
  have m2: "round64 ((b - a) * g) = Finite ((b - a) * g)"
    using p2 p2B by (intro round64_quarters) simp_all
  have r4: "lerp a b g * 4 = a * 4 + (b - a) * g * 4" by (simp add: lerp_def algebra_simps)
  have "a * 4 \<in> \<int>" using a(1) by (intro Ints_mult) simp_all
  then show l4: "lerp a b g * 4 \<in> \<int>"
    unfolding r4 using p2 by (rule Ints_add)
  show lB: "\<bar>lerp a b g\<bar> \<le> 2 ^ 32"
  proof -
    have "\<bar>lerp a b g\<bar> \<le> \<bar>a\<bar> + \<bar>(b - a) * g\<bar>" unfolding lerp_def by (rule abs_triangle_ineq)
    then show ?thesis using a(2) p2B by simp
  qed
  have fin: "round64 (lerp a b g) = Finite (lerp a b g)"
    using l4 lB by (intro round64_quarters) simp_all
  have e1: "b - (b - a) * (1 - g) = lerp a b g" by (simp add: lerp_def algebra_simps)
  have e2: "a + (b - a) * g = lerp a b g" by (simp add: lerp_def)
  show "lerp_f64 (Finite a) (Finite b) (Finite g) = Finite (lerp a b g)"
    by (simp add: lerp_f64_def Let_def fsub_def d og m1 m2 e1 e2 fin)
qed

lemma percentile_f64_exact:
  assumes ne: "xs \<noteq> []"
    and ints: "\<forall>x\<in>set xs. x \<in> \<int> \<and> \<bar>x\<bar> \<le> 2 ^ 30"
    and len: "length xs \<le> 2 ^ 30"
    and p: "p = 25 \<or> p = 50 \<or> p = 75"
  shows "percentile_f64 (map Finite xs) p = Finite (percentile xs p)"
    and "percentile xs p * 4 \<in> \<int>"
    and "\<bar>percentile xs p\<bar> \<le> 2 ^ 32"
proof -
  define n where "n = length xs"
  define v where "v = real (n - 1) * (p / 100)"
  define lo where "lo = nat \<lfloor>v\<rfloor>"
  define hi where "hi = min (lo + 1) (n - 1)"
  define g where "g = v - real lo"
  have n0: "0 < n" using ne by (simp add: n_def)
  have nB: "n \<le> 2 ^ 30" using len by (simp add: n_def)
  have q: "fdiv (Finite p) (Finite 100) = Finite (p / 100)"
    using p by (auto simp: round64_small)
  have "n - 1 < 2 ^ 53" using nB by simp
  then have cn: "round64 (real (n - 1)) = Finite (real (n - 1))" by (rule round64_of_nat)
  have v4: "v * 4 \<in> \<int>"
  proof -
    have "v * 4 = of_nat (n - 1) \<or> v * 4 = of_nat (2 * (n - 1)) \<or> v * 4 = of_nat (3 * (n - 1))"
      using p by (auto simp: v_def)
    then show ?thesis
      by (elim disjE) (simp_all only: Ints_of_nat)
  qed
  have v0: "0 \<le> v" using p by (auto simp: v_def)
  have "p / 100 \<le> 1" using p by auto
  then have "real (n - 1) * (p / 100) \<le> real (n - 1) * 1" by (intro mult_left_mono) simp_all
  then have vn: "v \<le> real (n - 1)" by (simp add: v_def)
  have "n - 1 \<le> 2 ^ 30" using nB by simp
  then have "real (n - 1) \<le> real (2 ^ 30)" by (simp only: of_nat_le_iff)
  then have "real (n - 1) \<le> 2 ^ 30" by simp
  then have vB: "\<bar>v\<bar> \<le> 2 ^ 40" using v0 vn by simp
  have cv: "round64 v = Finite v" using v4 vB by (rule round64_quarters)
  have len_sort: "length (sort xs) = n" by (simp add: n_def)
  have vn': "v \<le> real (length (sort xs) - 1)" using vn by (simp add: n_def)
  have lo_le: "lo \<le> n - 1" and g0: "0 \<le> g" and g1: "g < 1"
    using floor_index[OF v0 vn'] by (simp_all add: lo_def g_def n_def)
  have lo_n: "lo < n" and hi_n: "hi < n" using lo_le n0 by (simp_all add: hi_def)
  have "lo < 2 ^ 53" using lo_n nB by simp
  then have cl: "round64 (real lo) = Finite (real lo)" by (rule round64_of_nat)
  have g4: "g * 4 \<in> \<int>"
  proof -
    have "g * 4 = v * 4 - of_nat (4 * lo)" by (simp add: g_def)
    then show ?thesis using v4 by (simp only: Ints_diff Ints_of_nat)
  qed
  have cg: "round64 (v - real lo) = Finite g"
    unfolding g_def[symmetric] using g4 g0 g1 by (intro round64_quarters) simp_all
  have amem: "sort xs ! lo \<in> set xs" "sort xs ! hi \<in> set xs"
    using lo_n hi_n nth_mem[of lo "sort xs"] nth_mem[of hi "sort xs"] by (simp_all add: n_def)
  then have a: "sort xs ! lo \<in> \<int>" "\<bar>sort xs ! lo\<bar> \<le> 2 ^ 30"
    and b: "sort xs ! hi \<in> \<int>" "\<bar>sort xs ! hi\<bar> \<le> 2 ^ 30"
    using ints by auto
  note L = lerp_f64_exact[OF a b g4 g0 less_imp_le[OF g1]]
  have pe: "percentile xs p = lerp (sort xs ! lo) (sort xs ! hi) g"
    by (simp add: percentile_def Let_def n_def v_def lo_def hi_def g_def)
  show "percentile xs p * 4 \<in> \<int>" "\<bar>percentile xs p\<bar> \<le> 2 ^ 32"
    unfolding pe using L(2,3) by simp_all
  have nan: "NaN \<notin> set (map Finite xs)" by auto
  have len_map: "length (map Finite (sort xs)) = n" by (simp add: n_def)
  have vi: "fmul (round64 (real (n - 1))) (fdiv (Finite p) (Finite 100)) = Finite v"
    unfolding cn q using cv by (simp add: v_def)
  have gm: "fsub (Finite v) (round64 (real lo)) = Finite g"
    unfolding cl using cg by (simp add: fsub_def)
  have "percentile_f64 (map Finite xs) p
          = lerp_f64 (map Finite (sort xs) ! lo) (map Finite (sort xs) ! hi) (Finite g)"
    unfolding percentile_f64_def fsort_Finite Let_def len_map vi
    using nan gm by (simp add: lo_def hi_def)
  also have "\<dots> = lerp_f64 (Finite (sort xs ! lo)) (Finite (sort xs ! hi)) (Finite g)"
    using lo_n hi_n by (simp add: n_def)
  also have "\<dots> = Finite (percentile xs p)" unfolding pe by (rule L(1))
  finally show "percentile_f64 (map Finite xs) p = Finite (percentile xs p)" .
qed

lemma order_chain_of_exact:
  assumes "xs \<noteq> []" and "0 \<le> k"
    and "descriptive_stats_numeric_f64 desc \<lparr> sname = c, svalues = map Finite xs \<rparr> (Finite k)
           = Inr r"
    and "descriptive_stats_numeric \<lparr> sname = c, svalues = xs \<rparr> k = Inr e"
    and "nf_q1 r = Finite (ns_q1 e)" and "nf_median r = Finite (ns_median e)"
    and "nf_q3 r = Finite (ns_q3 e)" and "nf_iqr r = Finite (ns_iqr e)"
    and "nf_lower_fence r = Finite (ns_lower_fence e)"
    and "nf_upper_fence r = Finite (ns_upper_fence e)"
  shows "fle (nf_lower_fence r) (nf_q1 r) \<and> fle (nf_q1 r) (nf_median r)
       \<and> fle (nf_median r) (nf_q3 r) \<and> fle (nf_q3 r) (nf_upper_fence r)
       \<and> nf_iqr r = fsub (nf_q3 r) (nf_q1 r) \<and> fle (Finite 0) (nf_iqr r)"
proof -
  have ne: "svalues \<lparr> sname = c, svalues = xs \<rparr> \<noteq> []" using assms(1) by simp
  have q: "percentile xs 25 \<le> percentile xs 50" "percentile xs 50 \<le> percentile xs 75"
    using quartiles_ordered[OF assms(1)] by simp_all
  then have i: "0 \<le> percentile xs 75 - percentile xs 25" by simp
  have ki: "0 \<le> k * (percentile xs 75 - percentile xs 25)"
    using assms(2) i by (rule mult_nonneg_nonneg)
  have e: "ns_q1 e = percentile xs 25" "ns_median e = percentile xs 50"
    "ns_q3 e = percentile xs 75" "ns_iqr e = percentile xs 75 - percentile xs 25"
    "ns_lower_fence e = percentile xs 25 - k * (percentile xs 75 - percentile xs 25)"
    "ns_upper_fence e = percentile xs 75 + k * (percentile xs 75 - percentile xs 25)"
    using assms(4) unfolding descriptive_stats_numeric_Inr[OF ne] by auto
  have s: "nf_iqr r = fsub (nf_q3 r) (nf_q1 r)"
    using assms(3,1) by (auto simp: descriptive_stats_numeric_f64_def Let_def)
  have c1: "fle (nf_lower_fence r) (nf_q1 r)" unfolding assms(5-10) e using ki by simp
  have c2: "fle (nf_q1 r) (nf_median r)" unfolding assms(5-10) e using q by simp
  have c3: "fle (nf_median r) (nf_q3 r)" unfolding assms(5-10) e using q by simp
  have c4: "fle (nf_q3 r) (nf_upper_fence r)" unfolding assms(5-10) e using ki by simp
  have c5: "fle (Finite 0) (nf_iqr r)" unfolding assms(5-10) e using i by simp
  show ?thesis using c1 c2 c3 c4 s c5 by (intro conjI)
qed


text \<open>
  The float results are exact on every column of integers of moderate size with a
  fence factor that is a multiple of a quarter: there the chain holds.
\<close>

lemma integer_column_exact:
  assumes ne: "xs \<noteq> []"
    and ints: "\<forall>x\<in>set xs. x \<in> \<int> \<and> \<bar>x\<bar> \<le> 2 ^ 30"
    and len: "length xs \<le> 2 ^ 30"
    and k: "k * 4 \<in> \<int>" "0 \<le> k" "k \<le> 2 ^ 10"
    and r: "descriptive_stats_numeric_f64 desc \<lparr> sname = c, svalues = map Finite xs \<rparr> (Finite k)
              = Inr r"
  shows "nf_q1 r = Finite (percentile xs 25)"
    and "nf_median r = Finite (percentile xs 50)"
    and "nf_q3 r = Finite (percentile xs 75)"
    and "nf_iqr r = Finite (percentile xs 75 - percentile xs 25)"
    and "nf_lower_fence r
           = Finite (percentile xs 25 - k * (percentile xs 75 - percentile xs 25))"
    and "nf_upper_fence r
           = Finite (percentile xs 75 + k * (percentile xs 75 - percentile xs 25))"
proof -
  define q1 where "q1 = percentile xs 25"
  define q3 where "q3 = percentile xs 75"
  note P25 = percentile_f64_exact[OF ne ints len, of 25, simplified]
  note P50 = percentile_f64_exact[OF ne ints len, of 50, simplified]
  note P75 = percentile_f64_exact[OF ne ints len, of 75, simplified]
  have a: "q1 * 4 \<in> \<int>" "\<bar>q1\<bar> \<le> 2 ^ 32" "q3 * 4 \<in> \<int>" "\<bar>q3\<bar> \<le> 2 ^ 32"
    using P25(2,3) P75(2,3) by (simp_all add: q1_def q3_def)
  have i4: "(q3 - q1) * 4 \<in> \<int>"
  proof -
    have "(q3 - q1) * 4 = q3 * 4 - q1 * 4" by (simp add: algebra_simps)
    then show ?thesis using a(1,3) by (simp only: Ints_diff)
  qed
  have iB: "\<bar>q3 - q1\<bar> \<le> 2 ^ 33" using a(2,4) by simp
  have ci: "round64 (q3 - q1) = Finite (q3 - q1)"
    using i4 iB by (intro round64_quarters) simp_all
  have m16: "k * (q3 - q1) * 16 \<in> \<int>"
  proof -
    have "k * (q3 - q1) * 16 = (k * 4) * ((q3 - q1) * 4)" by simp
    then show ?thesis using k(1) i4 by (simp only: Ints_mult)
  qed
  have mB: "\<bar>k * (q3 - q1)\<bar> \<le> 2 ^ 43"
  proof -
    have "\<bar>k * (q3 - q1)\<bar> = \<bar>k\<bar> * \<bar>q3 - q1\<bar>" by (rule abs_mult)
    also have "\<dots> \<le> 2 ^ 10 * 2 ^ 33" using k(2,3) iB by (intro mult_mono) simp_all
    finally show ?thesis by simp
  qed
  have cm: "round64 (k * (q3 - q1)) = Finite (k * (q3 - q1))"
    using m16 mB by (intro round64_sixteenths) simp_all
  have q16: "q1 * 16 \<in> \<int>" "q3 * 16 \<in> \<int>"
  proof -
    have "q1 * 16 = (q1 * 4) * 4" "q3 * 16 = (q3 * 4) * 4" by simp_all
    then show "q1 * 16 \<in> \<int>" "q3 * 16 \<in> \<int>"
      using a(1,3) by (simp_all only: Ints_mult Ints_numeral)
  qed
  have l16: "(q1 - k * (q3 - q1)) * 16 \<in> \<int>"
  proof -
    have "(q1 - k * (q3 - q1)) * 16 = q1 * 16 - k * (q3 - q1) * 16" by (simp add: algebra_simps)
    then show ?thesis using q16(1) m16 by (simp only: Ints_diff)
  qed
  have u16: "(q3 + k * (q3 - q1)) * 16 \<in> \<int>"
  proof -
    have "(q3 + k * (q3 - q1)) * 16 = q3 * 16 + k * (q3 - q1) * 16" by (simp add: algebra_simps)
    then show ?thesis using q16(2) m16 by (simp only: Ints_add)
  qed
  have lB: "\<bar>q1 - k * (q3 - q1)\<bar> \<le> 2 ^ 46" "\<bar>q3 + k * (q3 - q1)\<bar> \<le> 2 ^ 46"
    using a(2,4) mB by simp_all
  have cl: "round64 (q1 - k * (q3 - q1)) = Finite (q1 - k * (q3 - q1))"
    using l16 lB(1) by (rule round64_sixteenths)
  have cu: "round64 (q3 + k * (q3 - q1)) = Finite (q3 + k * (q3 - q1))"
    using u16 lB(2) by (rule round64_sixteenths)
  have rr: "r = \<lparr> nf_column = c,
                 nf_n = length xs,
                 nf_min = np_min (map Finite xs),
                 nf_max = np_max (map Finite xs),
                 nf_mean = dm_mean desc,
                 nf_std = fsqrt (dm_variance desc),
                 nf_median = Finite (percentile xs 50),
                 nf_q1 = Finite q1,
                 nf_q3 = Finite q3,
                 nf_iqr = Finite (q3 - q1),
                 nf_skewness = dm_skewness desc,
                 nf_kurtosis = dm_kurtosis desc,
                 nf_lower_fence = Finite (q1 - k * (q3 - q1)),
                 nf_upper_fence = Finite (q3 + k * (q3 - q1)),
                 nf_n_outliers = length (filter (\<lambda>v. flt v (Finite (q1 - k * (q3 - q1)))
                                                  \<or> fgt v (Finite (q3 + k * (q3 - q1))))
                                          (map Finite xs)) \<rparr>"
    using r ne
    by (simp add: descriptive_stats_numeric_f64_def Let_def P25(1) P50(1) P75(1)
        q1_def[symmetric] q3_def[symmetric] fsub_def ci cm cl cu)
  show "nf_q1 r = Finite (percentile xs 25)"
    and "nf_median r = Finite (percentile xs 50)"
    and "nf_q3 r = Finite (percentile xs 75)"
    and "nf_iqr r = Finite (percentile xs 75 - percentile xs 25)"
    and "nf_lower_fence r
           = Finite (percentile xs 25 - k * (percentile xs 75 - percentile xs 25))"
    and "nf_upper_fence r
           = Finite (percentile xs 75 + k * (percentile xs 75 - percentile xs 25))"
    by (simp_all add: rr q1_def q3_def)
qed

lemma integer_column_order_chain:
  assumes ne: "xs \<noteq> []"
    and ints: "\<forall>x\<in>set xs. x \<in> \<int> \<and> \<bar>x\<bar> \<le> 2 ^ 30"
    and len: "length xs \<le> 2 ^ 30"
    and k: "k * 4 \<in> \<int>" "0 \<le> k" "k \<le> 2 ^ 10"
  shows "\<exists>r. descriptive_stats_numeric_f64 desc \<lparr> sname = c, svalues = map Finite xs \<rparr> (Finite k)
               = Inr r
           \<and> fle (nf_lower_fence r) (nf_q1 r) \<and> fle (nf_q1 r) (nf_median r)
           \<and> fle (nf_median r) (nf_q3 r) \<and> fle (nf_q3 r) (nf_upper_fence r)
           \<and> nf_iqr r = fsub (nf_q3 r) (nf_q1 r) \<and> fle (Finite 0) (nf_iqr r)"
proof -
  have ne': "svalues \<lparr> sname = c, svalues = xs \<rparr> \<noteq> []" using ne by simp
  obtain r where r: "descriptive_stats_numeric_f64 desc
      \<lparr> sname = c, svalues = map Finite xs \<rparr> (Finite k) = Inr r"
    using ne by (simp add: descriptive_stats_numeric_f64_def Let_def)
  obtain e where e: "descriptive_stats_numeric \<lparr> sname = c, svalues = xs \<rparr> k = Inr e"
    by (simp add: descriptive_stats_numeric_Inr[OF ne'])
  have ev: "ns_q1 e = percentile xs 25" "ns_median e = percentile xs 50"
    "ns_q3 e = percentile xs 75" "ns_iqr e = percentile xs 75 - percentile xs 25"
    "ns_lower_fence e = percentile xs 25 - k * (percentile xs 75 - percentile xs 25)"
    "ns_upper_fence e = percentile xs 75 + k * (percentile xs 75 - percentile xs 25)"
    using e unfolding descriptive_stats_numeric_Inr[OF ne'] by auto
  note x = integer_column_exact[OF ne ints len k r]
  have "fle (nf_lower_fence r) (nf_q1 r) \<and> fle (nf_q1 r) (nf_median r)
       \<and> fle (nf_median r) (nf_q3 r) \<and> fle (nf_q3 r) (nf_upper_fence r)
       \<and> nf_iqr r = fsub (nf_q3 r) (nf_q1 r) \<and> fle (Finite 0) (nf_iqr r)"
    by (rule order_chain_of_exact[OF ne k(2) r e]) (simp_all only: x ev)
  then show ?thesis using r by blast
qed

subsection \<open>The claims about the fences\<close>

text \<open>
  Claim C1. For every non-empty numeric column and every fence factor \<open>k\<close>,
  \<open>descriptive_stats_numeric\<close> returns a record whose \<open>q1\<close> and \<open>q3\<close> are the 25th and
  75th percentiles of the input as \<open>numpy.percentile\<close> computes them, whose \<open>iqr\<close> is
  \<open>q3 - q1\<close>, and whose fences are \<open>q1 - k * iqr\<close> and \<open>q3 + k * iqr\<close>, in the
  float arithmetic of the program; the default of \<open>k\<close> is 1.5.
\<close>

theorem numeric_fences:
  assumes "svalues data \<noteq> []"
  shows "\<exists>r. descriptive_stats_numeric_f64 desc data k = Inr r
           \<and> nf_q1 r = percentile_f64 (svalues data) 25
           \<and> nf_q3 r = percentile_f64 (svalues data) 75
           \<and> nf_iqr r = fsub (nf_q3 r) (nf_q1 r)
           \<and> nf_lower_fence r = fsub (nf_q1 r) (fmul k (nf_iqr r))
           \<and> nf_upper_fence r = fadd (nf_q3 r) (fmul k (nf_iqr r))
           \<and> tukey_factor_default = 1.5"
  using assms
  by (simp add: descriptive_stats_numeric_f64_def tukey_factor_default_def Let_def)

theorem numeric_fences_witness:
  "svalues \<lparr> sname = ''x'', svalues = map Finite [1, 2, 3, 4, 5, 100] \<rparr> \<noteq> []
   \<and> (\<exists>r. descriptive_stats_numeric_f64 no_moments
             \<lparr> sname = ''x'', svalues = map Finite [1, 2, 3, 4, 5, 100] \<rparr> (Finite 2) = Inr r
          \<and> nf_q1 r = Finite (9 / 4) \<and> nf_q3 r = Finite (19 / 4) \<and> nf_iqr r = Finite (5 / 2)
          \<and> nf_lower_fence r = Finite (- 11 / 4) \<and> nf_upper_fence r = Finite (39 / 4))"
proof -
  let ?d = "\<lparr> sname = ''x'', svalues = map Finite [1, 2, 3, 4, 5, 100] \<rparr>"
  have h: "svalues ?d \<noteq> []" by simp
  obtain r where r: "descriptive_stats_numeric_f64 no_moments ?d (Finite 2) = Inr r"
    and q1: "nf_q1 r = percentile_f64 (svalues ?d) 25"
    and q3: "nf_q3 r = percentile_f64 (svalues ?d) 75"
    and iqr: "nf_iqr r = fsub (nf_q3 r) (nf_q1 r)"
    and lf: "nf_lower_fence r = fsub (nf_q1 r) (fmul (Finite 2) (nf_iqr r))"
    and uf: "nf_upper_fence r = fadd (nf_q3 r) (fmul (Finite 2) (nf_iqr r))"
    using numeric_fences[OF h, of no_moments "Finite 2"] by blast
  have a: "nf_q1 r = Finite (9 / 4)" "nf_q3 r = Finite (19 / 4)"
    using q1 q3 percentile_f64_example by simp_all
  have b: "nf_iqr r = Finite (5 / 2)"
    using iqr a by (simp add: fsub_def round64_small)
  have c: "nf_lower_fence r = Finite (- 11 / 4)" "nf_upper_fence r = Finite (39 / 4)"
    using lf uf a b by (simp_all add: fsub_def round64_small)
  have "\<exists>r. descriptive_stats_numeric_f64 no_moments ?d (Finite 2) = Inr r
          \<and> nf_q1 r = Finite (9 / 4) \<and> nf_q3 r = Finite (19 / 4) \<and> nf_iqr r = Finite (5 / 2)
          \<and> nf_lower_fence r = Finite (- 11 / 4) \<and> nf_upper_fence r = Finite (39 / 4)"
    using r a b c by (intro exI[of _ r]) simp
  then show ?thesis using h by simp
qed




text \<open>
  Claim C3 says that a negative fence factor is rejected with an error. The function has
  no check of \<open>tukey_factor\<close>: on the column \<open>[1, 2, 3]\<close> with factor \<open>-1\<close> it returns a
  record.
\<close>

theorem negative_factor_not_rejected:
  "\<not> isl (descriptive_stats_numeric_f64 no_moments
            \<lparr> sname = ''x'', svalues = [Finite 1, Finite 2, Finite 3] \<rparr> (Finite (- 1)))"
  by (simp add: descriptive_stats_numeric_f64_def Let_def)

text \<open>
  Claim C3, as the code behaves. For every non-empty numeric column, a negative fence
  factor raises no error: the function does not validate the factor and returns a record.
\<close>

theorem numeric_negative_factor:
  assumes "svalues data \<noteq> []" and "flt k (Finite 0)"
  shows "\<exists>r. descriptive_stats_numeric_f64 desc data k = Inr r"
  using assms(1) by (simp add: descriptive_stats_numeric_f64_def Let_def)

theorem numeric_negative_factor_witness:
  "svalues \<lparr> sname = ''x'', svalues = [Finite 1, Finite 2, Finite 3] \<rparr> \<noteq> []
   \<and> flt (Finite (- 1)) (Finite 0)
   \<and> (\<exists>r. descriptive_stats_numeric_f64 no_moments
             \<lparr> sname = ''x'', svalues = [Finite 1, Finite 2, Finite 3] \<rparr> (Finite (- 1)) = Inr r)"
proof -
  let ?d = "\<lparr> sname = ''x'', svalues = [Finite 1, Finite 2, Finite 3] \<rparr>"
  have h: "svalues ?d \<noteq> []" and k: "flt (Finite (- 1)) (Finite 0)" by simp_all
  from numeric_negative_factor[OF h k, of no_moments] show ?thesis using h k by simp
qed

subsection \<open>The example of the specification\<close>

text \<open>
  Claim C9. On the column \<open>[1, 2, 3, 4, 5, 100]\<close> with the default fence factor the
  record has \<open>n = 6\<close>, \<open>min = 1\<close>, \<open>max = 100\<close>, \<open>median = 3.5\<close>, \<open>q1 = 2.25\<close>,
  \<open>q3 = 4.75\<close>, \<open>iqr = 2.5\<close>, \<open>lower_fence = -1.5\<close>, \<open>upper_fence = 8.5\<close> and
  \<open>n_outliers = 1\<close>.
\<close>
theorem numeric_example:
  "map_sum id (\<lambda>r. (ns_n r, ns_min r, ns_max r, ns_median r, ns_q1 r, ns_q3 r, ns_iqr r,
                     ns_lower_fence r, ns_upper_fence r, ns_n_outliers r))
     (descriptive_stats_numeric \<lparr> sname = ''x'', svalues = [1, 2, 3, 4, 5, 100] \<rparr>
        tukey_factor_default)
   = Inr (6, 1, 100, 3.5, 2.25, 4.75, 2.5, - 1.5, 8.5, 1)"
  by (simp add: descriptive_stats_numeric_Inr percentile_examples tukey_factor_default_def)

section \<open>Categorical statistics\<close>

lemma unique_props:
  "set (unique xs) = set xs" "distinct (unique xs)" "length (unique xs) = card (set xs)"
proof -
  show s: "set (unique xs) = set xs" and d: "distinct (unique xs)"
    by (simp_all add: unique_def)
  show "length (unique xs) = card (set xs)"
    using distinct_card[OF d] s by simp
qed

lemma value_counts_length: "length (value_counts xs) = card (set xs)"
  by (simp add: value_counts_def unique_props(3))

lemma value_counts_set:
  "set (value_counts xs) = (\<lambda>v. (v, count_list xs v)) ` set xs"
  by (simp add: value_counts_def unique_props(1))

lemma value_counts_labels: "set (map fst (value_counts xs)) = set xs"
  by (auto simp: value_counts_set image_iff)

lemma value_counts_count:
  "e \<in> set (value_counts xs) \<Longrightarrow> snd e = count_list xs (fst e)"
  by (auto simp: value_counts_set)

lemma value_counts_distinct: "distinct (map fst (value_counts xs))"
proof -
  let ?ps = "map (\<lambda>v. (v, count_list xs v)) (unique xs)"
  have "map fst ?ps = unique xs" by (simp add: comp_def)
  then have dm: "distinct (map fst ?ps)" by (simp add: unique_props(2))
  then have "distinct ?ps" and "inj_on fst (set ?ps)"
    by (simp_all only: distinct_map)
  then have "distinct (value_counts xs)" and "inj_on fst (set (value_counts xs))"
    by (simp_all add: value_counts_def)
  then show ?thesis by (simp only: distinct_map simp_thms)
qed

lemma value_counts_descending:
  assumes "i \<le> j" "j < length (value_counts xs)"
  shows "snd (value_counts xs ! j) \<le> snd (value_counts xs ! i)"
proof -
  let ?key = "\<lambda>vc::'a \<times> nat. - int (snd vc)"
  have "sorted (map ?key (value_counts xs))"
    unfolding value_counts_def by (rule sorted_sort_key)
  then have "map ?key (value_counts xs) ! i \<le> map ?key (value_counts xs) ! j"
    using assms by (intro sorted_nth_mono) simp_all
  then show ?thesis using assms by simp
qed

lemma counts_max_head:
  assumes "value_counts xs \<noteq> []"
  shows "counts_max (value_counts xs) = snd (value_counts xs ! 0)"
proof -
  let ?vcs = "value_counts xs"
  have "\<And>c. c \<in> set (map snd ?vcs) \<Longrightarrow> c \<le> snd (?vcs ! 0)"
  proof -
    fix c assume "c \<in> set (map snd ?vcs)"
    then obtain j where "j < length ?vcs" "c = snd (?vcs ! j)"
      by (auto simp: in_set_conv_nth)
    then show "c \<le> snd (?vcs ! 0)"
      using value_counts_descending[of 0 j xs] by simp
  qed
  moreover have "snd (?vcs ! 0) \<in> set (map snd ?vcs)"
    using assms by (cases ?vcs) simp_all
  ultimately show ?thesis
    unfolding counts_max_def by (intro Max_eqI) simp_all
qed

lemma idxmax_head:
  assumes "value_counts xs \<noteq> []"
  shows "idxmax (value_counts xs) = Inr (fst (value_counts xs ! 0))"
proof -
  obtain e es where v: "value_counts xs = e # es" using assms by (cases "value_counts xs") auto
  have "snd e = counts_max (value_counts xs)"
    using counts_max_head[OF assms] v by simp
  then show ?thesis
    unfolding idxmax_def by (simp add: v)
qed

lemma value_counts_nonempty: "xs \<noteq> [] \<Longrightarrow> value_counts xs \<noteq> []"
proof
  assume "xs \<noteq> []" "value_counts xs = []"
  then have "card (set xs) = 0" using value_counts_length[of xs] by simp
  with \<open>xs \<noteq> []\<close> show False by simp
qed

lemma descriptive_stats_categorical_Inr:
  assumes "svalues data \<noteq> []"
  shows "descriptive_stats_categorical data =
    Inr \<lparr> cs_column = sname data,
           cs_n = length (svalues data),
           cs_n_unique = card (set (svalues data)),
           cs_mode = fst (value_counts (svalues data) ! 0),
           cs_mode_count = snd (value_counts (svalues data) ! 0),
           cs_second_most_common =
             (if card (set (svalues data)) > 1
              then Some (fst (value_counts (svalues data) ! 1)) else None),
           cs_second_most_common_count =
             (if card (set (svalues data)) > 1
              then Some (snd (value_counts (svalues data) ! 1)) else None) \<rparr>"
proof -
  have ne: "value_counts (svalues data) \<noteq> []"
    using assms by (rule value_counts_nonempty)
  show ?thesis
    unfolding descriptive_stats_categorical_def Let_def
    by (simp add: idxmax_head[OF ne] counts_max_head[OF ne] value_counts_length
        nunique_def unique_props(3))
qed

lemma descriptive_stats_categorical_empty:
  "svalues data = [] \<Longrightarrow> descriptive_stats_categorical data = Inl ValueError"
  by (simp add: descriptive_stats_categorical_def value_counts_def unique_def idxmax_def)

lemma value_counts_rank:
  assumes "v \<in> set xs" "v \<noteq> fst (value_counts xs ! 0)" 
  shows "1 < card (set xs) \<and> count_list xs v \<le> snd (value_counts xs ! 1)"
proof -
  let ?vcs = "value_counts xs"
  have "v \<in> set (map fst ?vcs)" using assms(1) by (simp only: value_counts_labels)
  then obtain j where j: "j < length ?vcs" "fst (?vcs ! j) = v"
    by (auto simp: in_set_conv_nth)
  have "j \<noteq> 0"
  proof
    assume "j = 0"
    with j(2) assms(2) show False by simp
  qed
  then have j1: "1 \<le> j" by simp
  have "?vcs ! j \<in> set ?vcs" using j(1) by simp
  then have "snd (?vcs ! j) = count_list xs v"
    using value_counts_count[of "?vcs ! j" xs] j(2) by simp
  moreover have "snd (?vcs ! j) \<le> snd (?vcs ! 1)"
    using value_counts_descending[OF j1 j(1)] .
  moreover have "1 < card (set xs)" using j1 j(1) by (simp add: value_counts_length)
  ultimately show ?thesis by simp
qed

text \<open>
  Claim C5. For every non-empty categorical column the returned record has a mode count
  that is the frequency of the mode; with at least two distinct values the second most
  common value and its count are present, the count is the frequency of that value, it
  is at most the mode count and at least the frequency of every value other than the
  mode; with fewer than two distinct values both fields are null.
\<close>
theorem categorical_ranking:
  assumes "svalues data \<noteq> []"
  shows "\<exists>r. descriptive_stats_categorical data = Inr r
           \<and> cs_mode_count r = count_list (svalues data) (cs_mode r)
           \<and> (card (set (svalues data)) < 2 \<longrightarrow>
                 cs_second_most_common r = None \<and> cs_second_most_common_count r = None)
           \<and> (2 \<le> card (set (svalues data)) \<longrightarrow>
                 (\<exists>s c. cs_second_most_common r = Some s
                        \<and> cs_second_most_common_count r = Some c
                        \<and> s \<noteq> cs_mode r
                        \<and> c = count_list (svalues data) s
                        \<and> c \<le> cs_mode_count r
                        \<and> (\<forall>v. v \<noteq> cs_mode r \<longrightarrow> count_list (svalues data) v \<le> c)))"
proof -
  let ?xs = "svalues data"
  let ?vcs = "value_counts ?xs"
  have ne: "?vcs \<noteq> []" using assms by (rule value_counts_nonempty)
  then have len0: "0 < length ?vcs" by simp
  have "?vcs ! 0 \<in> set ?vcs" using len0 by simp
  then have m: "snd (?vcs ! 0) = count_list ?xs (fst (?vcs ! 0))"
    by (rule value_counts_count)
  have two: "\<exists>s c. Some (fst (?vcs ! 1)) = Some s \<and> Some (snd (?vcs ! 1)) = Some c
                 \<and> s \<noteq> fst (?vcs ! 0) \<and> c = count_list ?xs s \<and> c \<le> snd (?vcs ! 0)
                 \<and> (\<forall>v. v \<noteq> fst (?vcs ! 0) \<longrightarrow> count_list ?xs v \<le> c)"
    if c2: "2 \<le> card (set ?xs)"
  proof -
    have len1: "1 < length ?vcs" using c2 by (simp add: value_counts_length)
    have "?vcs ! 1 \<in> set ?vcs" using len1 by simp
    then have s: "snd (?vcs ! 1) = count_list ?xs (fst (?vcs ! 1))"
      by (rule value_counts_count)
    have "(map fst ?vcs ! 1 = map fst ?vcs ! 0) = (1 = (0::nat))"
      using value_counts_distinct[of ?xs] len1 ne by (intro nth_eq_iff_index_eq) simp_all
    then have d: "fst (?vcs ! 1) \<noteq> fst (?vcs ! 0)" using len1 len0 by simp
    have le: "snd (?vcs ! 1) \<le> snd (?vcs ! 0)"
      using value_counts_descending[of 0 1 ?xs] len1 by simp
    have others: "count_list ?xs v \<le> snd (?vcs ! 1)" if "v \<noteq> fst (?vcs ! 0)" for v
    proof (cases "v \<in> set ?xs")
      case True
      then show ?thesis using value_counts_rank[OF True that] by simp
    next
      case False
      then show ?thesis by (simp add: count_list_0_iff)
    qed
    show ?thesis using s d le others by simp
  qed
  show ?thesis
    unfolding descriptive_stats_categorical_Inr[OF assms]
    using m two by auto
qed

theorem categorical_ranking_witness:
  "svalues \<lparr> sname = ''c'', svalues = [''a'', ''a'', ''b'', ''c''] \<rparr> \<noteq> []
   \<and> (2::nat) \<le> card (set (svalues \<lparr> sname = ''c'', svalues = [''a'', ''a'', ''b'', ''c''] \<rparr>))
   \<and> (\<exists>r. descriptive_stats_categorical \<lparr> sname = ''c'', svalues = [''a'', ''a'', ''b'', ''c''] \<rparr>
             = Inr r
          \<and> (\<exists>s c. cs_second_most_common r = Some s
                 \<and> cs_second_most_common_count r = Some c
                 \<and> s \<noteq> cs_mode r \<and> c \<le> cs_mode_count r))
   \<and> svalues \<lparr> sname = ''c'', svalues = [''a'', ''a''] \<rparr> \<noteq> []
   \<and> card (set (svalues \<lparr> sname = ''c'', svalues = [''a'', ''a''] \<rparr>)) < (2::nat)
   \<and> (\<exists>r. descriptive_stats_categorical \<lparr> sname = ''c'', svalues = [''a'', ''a''] \<rparr> = Inr r
          \<and> cs_second_most_common r = None \<and> cs_second_most_common_count r = None)"
proof -
  let ?d = "\<lparr> sname = ''c'', svalues = [''a'', ''a'', ''b'', ''c''] \<rparr>"
  let ?e = "\<lparr> sname = ''c'', svalues = [''a'', ''a''] \<rparr>"
  have h: "svalues ?d \<noteq> []" and c: "(2::nat) \<le> card (set (svalues ?d))" by simp_all
  have h': "svalues ?e \<noteq> []" and c': "card (set (svalues ?e)) < (2::nat)" by simp_all
  have two: "\<exists>r. descriptive_stats_categorical ?d = Inr r
          \<and> (\<exists>s c. cs_second_most_common r = Some s
                 \<and> cs_second_most_common_count r = Some c
                 \<and> s \<noteq> cs_mode r \<and> c \<le> cs_mode_count r)"
    using categorical_ranking[OF h] c by blast
  have one: "\<exists>r. descriptive_stats_categorical ?e = Inr r
          \<and> cs_second_most_common r = None \<and> cs_second_most_common_count r = None"
    using categorical_ranking[OF h'] c' by blast
  show ?thesis using h c two h' c' one by blast
qed

lemma categorical_example:
  "descriptive_stats_categorical \<lparr> sname = ''c'', svalues = [''a'', ''a'', ''b'', ''c''] \<rparr>
   = Inr \<lparr> cs_column = ''c'', cs_n = 4, cs_n_unique = 3, cs_mode = ''a'', cs_mode_count = 2,
            cs_second_most_common = Some ''b'', cs_second_most_common_count = Some 1 \<rparr>"
  by (simp add: descriptive_stats_categorical_def value_counts_def unique_def idxmax_def
      counts_max_def nunique_def Let_def)

section \<open>Tables\<close>

subsection \<open>The missing percentage\<close>

lemma missing_percentage_of_zero_rows: "missing_percentage_of 0 0 = NaN"
  by (simp add: missing_percentage_of_def np_true_divide_def py_round_def round64_def)

lemma missing_percentage_of_float:
  assumes "0 < t" "t < 2 ^ 53" "m \<le> t"
  shows "missing_percentage_of m t
           = py_round (fmul (fdiv (Finite (real m)) (Finite (real t))) (Finite 100)) 2"
proof -
  have "m < 2 ^ 53" using assms(2,3) by simp
  then have cm: "round64 (real m) = Finite (real m)" by (rule round64_of_nat)
  have ct: "round64 (real t) = Finite (real t)" using assms(2) by (rule round64_of_nat)
  show ?thesis
    unfolding missing_percentage_of_def np_true_divide_def cm ct ..
qed

lemma missing_percentage_of_range:
  assumes "0 < t" "t < 2 ^ 53" "m \<le> t"
  shows "\<exists>p. missing_percentage_of m t = Finite p \<and> 0 \<le> p \<and> p \<le> 100"
proof -
  have "real m / real t \<le> 1" "0 \<le> real m / real t" using assms by simp_all
  then have "\<exists>y. round64 (real m / real t) = Finite y \<and> 0 \<le> y \<and> y \<le> real 1"
    by (intro round64_range) simp_all
  then obtain q where q: "round64 (real m / real t) = Finite q" "0 \<le> q" "q \<le> 1" by auto
  have "0 \<le> q * 100" "q * 100 \<le> real 100" using q(2,3) by simp_all
  then have "\<exists>y. round64 (q * 100) = Finite y \<and> 0 \<le> y \<and> y \<le> real 100"
    by (intro round64_range) simp_all
  then obtain x where x: "round64 (q * 100) = Finite x" "0 \<le> x" "x \<le> 100" by auto
  have "0 \<le> x * 10 ^ 2" "x * 10 ^ 2 \<le> real 10000" using x(2,3) by simp_all
  then have "\<exists>y. round64 (x * 10 ^ 2) = Finite y \<and> 0 \<le> y \<and> y \<le> real 10000"
    by (intro round64_range) simp_all
  then obtain z where z: "round64 (x * 10 ^ 2) = Finite z" "0 \<le> z" "z \<le> 10000" by auto
  have "of_int 0 \<le> z" "z \<le> of_int 10000" using z(2,3) by simp_all
  then have "of_int 0 \<le> rint z" "rint z \<le> of_int 10000" by (rule rint_bounds)+
  then have "0 \<le> rint z / 10 ^ 2" "rint z / 10 ^ 2 \<le> real 100" by simp_all
  then have "\<exists>y. round64 (rint z / 10 ^ 2) = Finite y \<and> 0 \<le> y \<and> y \<le> real 100"
    by (intro round64_range) simp_all
  then obtain p where p: "round64 (rint z / 10 ^ 2) = Finite p" "0 \<le> p" "p \<le> 100" by auto
  have "missing_percentage_of m t = Finite p"
    unfolding missing_percentage_of_float[OF assms] py_round_def
    using assms(1) q(1) x(1) z(1) p(1) by simp
  then show ?thesis using p(2,3) by simp
qed

lemma missing_percentage_quarter: "missing_percentage_of 1 4 = Finite 25"
  "missing_percentage_of 2 4 = Finite 50"
  by (simp_all add: missing_percentage_of_def np_true_divide_def py_round_def round64_small
      rint_def Let_def)

text \<open>23 missing of 160 rows: the float product is just below 14.375 and rounds down.\<close>

lemma missing_percentage_23_of_160:
  "missing_percentage_of 23 160 = round64 (1437 / 100)"
  "missing_percentage_of 23 160 = Finite (8089590830664253 / 2 ^ 49)"
proof -
  have c: "round64 (real 23) = Finite 23" "round64 (real 160) = Finite 160"
    by (simp_all add: round64_small)
  have q: "round64 (23 / 160) = Finite (5179139571476070 / 2 ^ 55)"
    by (subst round64_binade[of "-3"]) (simp_all add: rint_def Let_def)
  have x: "round64 (5179139571476070 / 2 ^ 55 * 100) = Finite (8092405580431359 / 2 ^ 49)"
    by (subst round64_binade[of 3]) (simp_all add: rint_def Let_def)
  have z: "round64 (8092405580431359 / 2 ^ 49 * 10 ^ 2) = Finite (6322191859711999 / 2 ^ 42)"
    by (subst round64_binade[of 10]) (simp_all add: rint_def Let_def)
  have r: "rint (6322191859711999 / 2 ^ 42) = 1437"
    by (simp add: rint_def Let_def)
  have p: "round64 (1437 / 100) = Finite (8089590830664253 / 2 ^ 49)"
    by (subst round64_binade[of 3]) (simp_all add: rint_def Let_def)
  have "missing_percentage_of 23 160 = round64 (1437 / 10 ^ 2)"
    unfolding missing_percentage_of_def np_true_divide_def py_round_def c
    using q x z r by simp
  then show "missing_percentage_of 23 160 = round64 (1437 / 100)" by simp
  then show "missing_percentage_of 23 160 = Finite (8089590830664253 / 2 ^ 49)"
    using p by simp
qed

subsection \<open>Columns\<close>

lemma dropna_length: "length (dropna xs) + isnull_sum xs = length xs"
  by (induction xs rule: dropna.induct) (simp_all add: isnull_sum_def)

lemma isnull_sum_le: "isnull_sum xs \<le> length xs"
  by (simp add: isnull_sum_def)

lemma dropna_empty_iff: "dropna xs = [] \<longleftrightarrow> isnull_sum xs = length xs"
  using dropna_length[of xs] by (metis add_cancel_left_left length_0_conv)

lemma col_isnull_sum_le: "col_isnull_sum col \<le> col_len col"
  by (cases col) (simp_all add: col_isnull_sum_def col_len_def isnull_sum_le)

lemma column_stats_error:
  assumes "col_isnull_sum col = col_len col"
  shows "column_stats column col = Inl ValueError"
proof (cases col)
  case (NumCol xs)
  then have "dropna xs = []"
    using assms by (simp add: dropna_empty_iff col_isnull_sum_def col_len_def)
  then show ?thesis
    using NumCol by (simp add: column_stats_def descriptive_stats_numeric_empty)
next
  case (ObjCol xs)
  then have "dropna xs = []"
    using assms by (simp add: dropna_empty_iff col_isnull_sum_def col_len_def)
  then show ?thesis
    using ObjCol by (simp add: column_stats_def descriptive_stats_categorical_empty)
qed

lemma column_stats_ok:
  assumes "col_isnull_sum col \<noteq> col_len col"
  shows "\<exists>st. column_stats column col = Inr st
            \<and> get_n st d + col_isnull_sum col = col_len col"
proof (cases col)
  case (NumCol xs)
  then have ne: "svalues \<lparr> sname = column, svalues = dropna xs \<rparr> \<noteq> []"
    using assms by (simp add: dropna_empty_iff col_isnull_sum_def col_len_def)
  show ?thesis
    using NumCol dropna_length[of xs]
    by (simp add: column_stats_def descriptive_stats_numeric_Inr[OF ne] get_n_def
        col_isnull_sum_def col_len_def)
next
  case (ObjCol xs)
  then have ne: "svalues \<lparr> sname = column, svalues = dropna xs \<rparr> \<noteq> []"
    using assms by (simp add: dropna_empty_iff col_isnull_sum_def col_len_def)
  show ?thesis
    using ObjCol dropna_length[of xs]
    by (simp add: column_stats_def descriptive_stats_categorical_Inr[OF ne] get_n_def
        col_isnull_sum_def col_len_def)
qed

lemma column_stats_Inr:
  assumes "column_stats column col = Inr st"
  shows "col_isnull_sum col \<noteq> col_len col"
    and "get_n st d + col_isnull_sum col = col_len col"
proof -
  show ne: "col_isnull_sum col \<noteq> col_len col"
    using assms column_stats_error[of col column] by auto
  from column_stats_ok[OF ne, of column d] assms
  show "get_n st d + col_isnull_sum col = col_len col" by auto
qed

subsection \<open>Frames\<close>

lemma getitem_label:
  assumes "column \<in> set (columns df)"
  shows "\<exists>col. getitem df column = Inr col \<and> (column, col) \<in> set df"
proof -
  from assms have "column \<in> fst ` set df" by (simp add: columns_def)
  then have "map_of df column \<noteq> None" by (simp add: map_of_eq_None_iff)
  then obtain col where "map_of df column = Some col" by auto
  then show ?thesis by (auto simp: getitem_def dest: map_of_SomeD)
qed

lemma getitem_member:
  assumes "wf_dataframe df" "(column, col) \<in> set df"
  shows "getitem df column = Inr col"
  using assms by (simp add: getitem_def wf_dataframe_def)

lemma wf_col_len:
  assumes "wf_dataframe df" "(column, col) \<in> set df"
  shows "col_len col = nrows df"
  using assms by (auto simp: wf_dataframe_def list_all_iff)

lemma getitem_Inr: "getitem df column = Inr col \<Longrightarrow> (column, col) \<in> set df"
  by (auto simp: getitem_def split: option.splits dest: map_of_SomeD)

subsection \<open>The loop of the overview\<close>

lemma overview_column_Inr:
  assumes "overview_column df column = Inr row"
  shows "\<exists>col. (column, col) \<in> set df \<and> ov_column row = column
           \<and> ov_missing_value row = col_isnull_sum col
           \<and> ov_missing_percentage row
               = missing_percentage_of (col_isnull_sum col) (col_len col)"
  using assms
  by (auto simp: overview_column_def Let_def split: sum.splits dest: getitem_Inr)

lemma overview_column_total:
  assumes "column \<in> set (columns df)"
  shows "\<exists>row. overview_column df column = Inr row"
  using getitem_label[OF assms] by (auto simp: overview_column_def Let_def)

lemma overview_loop_Inr:
  "overview_loop df cs acc = Inr rows \<Longrightarrow>
     \<exists>new. rows = acc @ new \<and> list_all2 (\<lambda>c r. overview_column df c = Inr r) cs new"
proof (induction cs arbitrary: acc)
  case Nil
  then show ?case by simp
next
  case (Cons c cs)
  then obtain r where r: "overview_column df c = Inr r"
    and rest: "overview_loop df cs (acc @ [r]) = Inr rows"
    by (auto split: sum.splits)
  from Cons.IH[OF rest] obtain new where
    "rows = (acc @ [r]) @ new" "list_all2 (\<lambda>c r. overview_column df c = Inr r) cs new"
    by blast
  then have "rows = acc @ (r # new)"
    "list_all2 (\<lambda>c r. overview_column df c = Inr r) (c # cs) (r # new)"
    using r by simp_all
  then show ?case by blast
qed

lemma overview_loop_total:
  "\<forall>c\<in>set cs. \<exists>r. overview_column df c = Inr r \<Longrightarrow>
     \<exists>rows. overview_loop df cs acc = Inr rows"
proof (induction cs arbitrary: acc)
  case Nil
  then show ?case by simp
next
  case (Cons c cs)
  then obtain r where r: "overview_column df c = Inr r" by auto
  from Cons.IH[of "acc @ [r]"] Cons.prems
  obtain rows where "overview_loop df cs (acc @ [r]) = Inr rows" by auto
  then show ?case using r by simp
qed

lemma overview_df_rows:
  "\<exists>rows. overview_df df = Inr rows
         \<and> list_all2 (\<lambda>c r. overview_column df c = Inr r) (columns df) rows"
proof -
  have "\<forall>c\<in>set (columns df). \<exists>r. overview_column df c = Inr r"
    using overview_column_total by blast
  from overview_loop_total[OF this, of "[]"]
  obtain rows where rows: "overview_loop df (columns df) [] = Inr rows" by blast
  from overview_loop_Inr[OF rows]
  have "list_all2 (\<lambda>c r. overview_column df c = Inr r) (columns df) rows" by simp
  then show ?thesis using rows by (auto simp: overview_df_def)
qed

subsection \<open>The loop of the unified analysis\<close>

lemma column_stats_Inl: "column_stats column col = Inl e \<Longrightarrow> e = ValueError"
  using column_stats_ok[of col column 0] column_stats_error[of col column]
  by (cases "col_isnull_sum col = col_len col") auto

lemma analyze_column_Inr:
  assumes "analyze_column df column = Inr row"
  shows "\<exists>col st. (column, col) \<in> set df \<and> column_stats column col = Inr st
           \<and> cb_column row = column
           \<and> cb_n row = get_n st (col_len col)
           \<and> cb_missing_value row = col_isnull_sum col
           \<and> cb_missing_percentage row
               = missing_percentage_of (col_isnull_sum col) (col_len col)"
proof -
  from assms obtain col where g: "getitem df column = Inr col"
    by (auto simp: analyze_column_def split: sum.splits)
  with assms obtain st where st: "column_stats column col = Inr st"
    by (auto simp: analyze_column_def split: sum.splits)
  from assms have "cb_column row = column" "cb_n row = get_n st (col_len col)"
    "cb_missing_value row = col_isnull_sum col"
    "cb_missing_percentage row = missing_percentage_of (col_isnull_sum col) (col_len col)"
    by (auto simp: analyze_column_def g st Let_def)
  then show ?thesis using getitem_Inr[OF g] st by blast
qed

lemma analyze_column_Inl:
  assumes "column \<in> set (columns df)" "analyze_column df column = Inl e"
  shows "e = ValueError"
proof -
  from getitem_label[OF assms(1)] obtain col where g: "getitem df column = Inr col"
    by blast
  from assms(2) have "column_stats column col = Inl e"
    by (auto simp: analyze_column_def g Let_def split: sum.splits)
  then show ?thesis by (rule column_stats_Inl)
qed

lemma analyze_column_ok:
  assumes "wf_dataframe df" "(column, col) \<in> set df" "col_isnull_sum col \<noteq> col_len col"
  shows "\<exists>row. analyze_column df column = Inr row"
proof -
  from column_stats_ok[OF assms(3), of column 0]
  obtain st where "column_stats column col = Inr st" by blast
  then show ?thesis
    by (simp add: analyze_column_def getitem_member[OF assms(1,2)] Let_def)
qed

lemma analyze_column_error:
  assumes "wf_dataframe df" "(column, col) \<in> set df" "col_isnull_sum col = col_len col"
  shows "analyze_column df column = Inl ValueError"
  by (simp add: analyze_column_def getitem_member[OF assms(1,2)]
      column_stats_error[OF assms(3)])

lemma analyze_loop_Inr:
  "analyze_loop df cs acc = Inr rows \<Longrightarrow>
     \<exists>new. rows = acc @ new \<and> list_all2 (\<lambda>c r. analyze_column df c = Inr r) cs new"
proof (induction cs arbitrary: acc)
  case Nil
  then show ?case by simp
next
  case (Cons c cs)
  then obtain r where r: "analyze_column df c = Inr r"
    and rest: "analyze_loop df cs (acc @ [r]) = Inr rows"
    by (auto split: sum.splits)
  from Cons.IH[OF rest] obtain new where
    "rows = (acc @ [r]) @ new" "list_all2 (\<lambda>c r. analyze_column df c = Inr r) cs new"
    by blast
  then have "rows = acc @ (r # new)"
    "list_all2 (\<lambda>c r. analyze_column df c = Inr r) (c # cs) (r # new)"
    using r by simp_all
  then show ?case by blast
qed

lemma analyze_loop_total:
  "\<forall>c\<in>set cs. \<exists>r. analyze_column df c = Inr r \<Longrightarrow>
     \<exists>rows. analyze_loop df cs acc = Inr rows"
proof (induction cs arbitrary: acc)
  case Nil
  then show ?case by simp
next
  case (Cons c cs)
  then obtain r where r: "analyze_column df c = Inr r" by auto
  from Cons.IH[of "acc @ [r]"] Cons.prems
  obtain rows where "analyze_loop df cs (acc @ [r]) = Inr rows" by auto
  then show ?case using r by simp
qed

lemma analyze_loop_error:
  assumes "c \<in> set cs" "analyze_column df c = Inl ValueError"
    and "\<forall>c'\<in>set cs. \<forall>e. analyze_column df c' = Inl e \<longrightarrow> e = ValueError"
  shows "analyze_loop df cs acc = Inl ValueError"
  using assms
proof (induction cs arbitrary: acc)
  case Nil
  then show ?case by simp
next
  case (Cons c' cs)
  show ?case
  proof (cases "analyze_column df c'")
    case (Inl e)
    then have "e = ValueError" using Cons.prems(3) by simp
    then show ?thesis using Inl by simp
  next
    case (Inr r)
    then have "c \<noteq> c'" using Cons.prems(2) by auto
    then have "c \<in> set cs" using Cons.prems(1) by simp
    from Cons.IH[OF this Cons.prems(2)] Cons.prems(3)
    have "analyze_loop df cs (acc @ [r]) = Inl ValueError" by simp
    then show ?thesis using Inr by simp
  qed
qed

lemma analyze_dataset_rows:
  assumes "analyze_dataset df = Inr rows"
  shows "list_all2 (\<lambda>c r. analyze_column df c = Inr r) (columns df) rows"
  using analyze_loop_Inr[of df "columns df" "[]" rows] assms
  by (simp add: analyze_dataset_def)

lemma analyze_dataset_row:
  assumes "analyze_dataset df = Inr rows" "row \<in> set rows"
  shows "\<exists>c. c \<in> set (columns df) \<and> analyze_column df c = Inr row"
  using analyze_dataset_rows[OF assms(1)] assms(2)
  by (auto simp: list_all2_conv_all_nth in_set_conv_nth)

lemma analyze_dataset_total:
  assumes "wf_dataframe df"
    and "\<forall>lc\<in>set df. col_isnull_sum (snd lc) \<noteq> col_len (snd lc)"
  shows "\<exists>rows. analyze_dataset df = Inr rows"
proof -
  have "\<forall>c\<in>set (columns df). \<exists>r. analyze_column df c = Inr r"
  proof
    fix c assume "c \<in> set (columns df)"
    then obtain col where m: "(c, col) \<in> set df" by (auto simp: columns_def)
    then have "col_isnull_sum col \<noteq> col_len col" using assms(2) by force
    from analyze_column_ok[OF assms(1) m this]
    show "\<exists>r. analyze_column df c = Inr r" .
  qed
  from analyze_loop_total[OF this] show ?thesis by (simp add: analyze_dataset_def)
qed

lemma analyze_dataset_columns:
  assumes "analyze_dataset df = Inr rows"
  shows "length rows = length df" "map cb_column rows = columns df"
proof -
  let ?R = "\<lambda>c r. analyze_column df c = Inr r"
  have l2: "list_all2 ?R (columns df) rows" using analyze_dataset_rows[OF assms] .
  then have len: "length (columns df) = length rows" by (rule list_all2_lengthD)
  then show "length rows = length df" by (simp add: columns_def)
  have "cb_column (rows ! i) = columns df ! i" if "i < length rows" for i
  proof -
    have "analyze_column df (columns df ! i) = Inr (rows ! i)"
      using l2 that len by (simp add: list_all2_conv_all_nth)
    from analyze_column_Inr[OF this] show ?thesis by auto
  qed
  then show "map cb_column rows = columns df"
    using len by (intro nth_equalityI) simp_all
qed

subsection \<open>The example frames\<close>

lemma overview_df_columns:
  assumes "overview_df df = Inr rows"
  shows "map ov_column rows = columns df"
    and "row \<in> set rows \<Longrightarrow> \<exists>c. c \<in> set (columns df) \<and> overview_column df c = Inr row"
proof -
  let ?R = "\<lambda>c r. overview_column df c = Inr r"
  have l2: "list_all2 ?R (columns df) rows"
    using overview_df_rows[of df] assms by auto
  then have len: "length (columns df) = length rows" by (rule list_all2_lengthD)
  have "ov_column (rows ! i) = columns df ! i" if "i < length rows" for i
  proof -
    have "overview_column df (columns df ! i) = Inr (rows ! i)"
      using l2 that len by (simp add: list_all2_conv_all_nth)
    from overview_column_Inr[OF this] show ?thesis by auto
  qed
  then show "map ov_column rows = columns df"
    using len by (intro nth_equalityI) simp_all
  show "\<exists>c. c \<in> set (columns df) \<and> overview_column df c = Inr row" if "row \<in> set rows"
    using l2 that by (auto simp: list_all2_conv_all_nth in_set_conv_nth)
qed

lemma example_frame_wf: "wf_dataframe example_frame" "nrows example_frame = 3"
  by (simp_all add: example_frame_def wf_dataframe_def nrows_def col_len_def)

lemma example_frame_analyzed: "\<exists>rows. analyze_dataset example_frame = Inr rows"
proof -
  have "\<forall>lc\<in>set example_frame. col_isnull_sum (snd lc) \<noteq> col_len (snd lc)"
    by (simp add: example_frame_def col_isnull_sum_def isnull_sum_def col_len_def)
  from analyze_dataset_total[OF example_frame_wf(1) this] show ?thesis .
qed

lemma example_frame_x:
  "(''x'', col) \<in> set example_frame \<Longrightarrow> col_isnull_sum col = 1"
  by (auto simp: example_frame_def col_isnull_sum_def isnull_sum_def)

lemma example_frame_y:
  "(''y'', col) \<in> set example_frame \<Longrightarrow> col_isnull_sum col = 2"
  by (auto simp: example_frame_def col_isnull_sum_def isnull_sum_def)

lemma example_frame_quarters_wf:
  "wf_dataframe example_frame_quarters" "nrows example_frame_quarters = 4"
  by (simp_all add: example_frame_quarters_def wf_dataframe_def nrows_def col_len_def)

lemma example_frame_quarters_analyzed:
  "\<exists>rows. analyze_dataset example_frame_quarters = Inr rows"
proof -
  have "\<forall>lc\<in>set example_frame_quarters. col_isnull_sum (snd lc) \<noteq> col_len (snd lc)"
    by (simp add: example_frame_quarters_def col_isnull_sum_def isnull_sum_def col_len_def)
  from analyze_dataset_total[OF example_frame_quarters_wf(1) this] show ?thesis .
qed

lemma example_frame_quarters_x:
  "(''x'', col) \<in> set example_frame_quarters \<Longrightarrow> col_isnull_sum col = 1"
  by (auto simp: example_frame_quarters_def col_isnull_sum_def isnull_sum_def)

lemma example_frame_quarters_y:
  "(''y'', col) \<in> set example_frame_quarters \<Longrightarrow> col_isnull_sum col = 2"
  by (auto simp: example_frame_quarters_def col_isnull_sum_def isnull_sum_def)

lemma py_round_quarter:
  "py_round (fmul (fdiv (Finite 1) (Finite 4)) (Finite 100)) 2 = Finite 25"
  "py_round (fmul (fdiv (Finite 2) (Finite 4)) (Finite 100)) 2 = Finite 50"
  by (simp_all add: py_round_def round64_small rint_def Let_def)

subsection \<open>The claims about tables\<close>

text \<open>
  Claim C6 says that the missing percentage lies in \<open>[0, 100]\<close> for every table. On a
  frame with a column and no rows, \<open>overview_df\<close> divides zero by zero: the missing
  percentage of the row is NaN, not a number of that interval.
\<close>

theorem overview_zero_rows_not_a_number:
  "map_sum id (map ov_missing_percentage)
     (overview_df [(''a'', ObjCol ([] :: string option list))]) = Inr [NaN]"
  by (simp add: overview_df_def columns_def overview_column_def getitem_def Let_def
      missing_percentage_of_zero_rows col_len_def col_isnull_sum_def isnull_sum_def)

text \<open>
  Claim C6, as the code behaves. For every well-formed frame with at least one row (and
  fewer than \<open>2\<^sup>5\<^sup>3\<close> rows, so that the counts are doubles), every row of \<open>overview_df\<close>
  has a missing percentage equal to \<open>round(missing_count / total_row_count * 100, 2)\<close>
  as computed in binary64, which is a number of \<open>[0, 100]\<close>, where the missing count is
  that of the row's column; and the same holds for every row of \<open>analyze_dataset\<close> on
  every such frame on which it succeeds.
\<close>

theorem missing_percentage_rounded:
  assumes "wf_dataframe df" and "nrows df < 2 ^ 53"
  shows "(0 < nrows df \<longrightarrow>
            (\<exists>rows. overview_df df = Inr rows \<and> map ov_column rows = columns df
               \<and> (\<forall>row\<in>set rows.
                     (\<exists>col. (ov_column row, col) \<in> set df
                            \<and> ov_missing_value row = col_isnull_sum col)
                   \<and> ov_missing_percentage row
                       = py_round (fmul (fdiv (Finite (real (ov_missing_value row)))
                                              (Finite (real (nrows df))))
                                        (Finite 100)) 2
                   \<and> (\<exists>p. ov_missing_percentage row = Finite p \<and> 0 \<le> p \<and> p \<le> 100))))
       \<and> (\<forall>rows. analyze_dataset df = Inr rows \<longrightarrow>
            (\<forall>row\<in>set rows.
                 (\<exists>col. (cb_column row, col) \<in> set df
                        \<and> cb_missing_value row = col_isnull_sum col)
               \<and> cb_missing_percentage row
                   = py_round (fmul (fdiv (Finite (real (cb_missing_value row)))
                                          (Finite (real (nrows df))))
                                    (Finite 100)) 2
               \<and> (\<exists>p. cb_missing_percentage row = Finite p \<and> 0 \<le> p \<and> p \<le> 100)))"
proof -
  obtain rows where rows: "overview_df df = Inr rows"
    using overview_df_rows[of df] by blast
  have A: "\<exists>rows. overview_df df = Inr rows \<and> map ov_column rows = columns df
               \<and> (\<forall>row\<in>set rows.
                     (\<exists>col. (ov_column row, col) \<in> set df
                            \<and> ov_missing_value row = col_isnull_sum col)
                   \<and> ov_missing_percentage row
                       = py_round (fmul (fdiv (Finite (real (ov_missing_value row)))
                                              (Finite (real (nrows df))))
                                        (Finite 100)) 2
                   \<and> (\<exists>p. ov_missing_percentage row = Finite p \<and> 0 \<le> p \<and> p \<le> 100))"
    if pos: "0 < nrows df"
  proof -
    have "(\<exists>col. (ov_column row, col) \<in> set df \<and> ov_missing_value row = col_isnull_sum col)
           \<and> ov_missing_percentage row
               = py_round (fmul (fdiv (Finite (real (ov_missing_value row)))
                                      (Finite (real (nrows df))))
                                (Finite 100)) 2
           \<and> (\<exists>p. ov_missing_percentage row = Finite p \<and> 0 \<le> p \<and> p \<le> 100)"
      if "row \<in> set rows" for row
    proof -
      from overview_df_columns(2)[OF rows that] obtain c
        where "overview_column df c = Inr row" by blast
      from overview_column_Inr[OF this] obtain col
        where m: "(c, col) \<in> set df" and c: "ov_column row = c"
          and v: "ov_missing_value row = col_isnull_sum col"
          and p: "ov_missing_percentage row
                    = missing_percentage_of (col_isnull_sum col) (col_len col)"
        by blast
      have len: "col_len col = nrows df" using wf_col_len[OF assms(1) m] .
      have le: "col_isnull_sum col \<le> nrows df" using col_isnull_sum_le[of col] len by simp
      show ?thesis
        using m c v p len missing_percentage_of_float[OF pos assms(2) le]
          missing_percentage_of_range[OF pos assms(2) le]
        by auto
    qed
    then show ?thesis
      using rows overview_df_columns(1)[OF rows] by blast
  qed
  have B: "(\<exists>col. (cb_column row, col) \<in> set df \<and> cb_missing_value row = col_isnull_sum col)
       \<and> cb_missing_percentage row
           = py_round (fmul (fdiv (Finite (real (cb_missing_value row)))
                                  (Finite (real (nrows df))))
                            (Finite 100)) 2
       \<and> (\<exists>p. cb_missing_percentage row = Finite p \<and> 0 \<le> p \<and> p \<le> 100)"
    if rows: "analyze_dataset df = Inr rows" and row: "row \<in> set rows" for rows row
  proof -
    from analyze_dataset_row[OF rows row] obtain c
      where "analyze_column df c = Inr row" by blast
    from analyze_column_Inr[OF this] obtain col st
      where m: "(c, col) \<in> set df" and st: "column_stats c col = Inr st"
        and c: "cb_column row = c"
        and v: "cb_missing_value row = col_isnull_sum col"
        and p: "cb_missing_percentage row
                  = missing_percentage_of (col_isnull_sum col) (col_len col)"
      by blast
    have len: "col_len col = nrows df" using wf_col_len[OF assms(1) m] .
    have le: "col_isnull_sum col \<le> nrows df" using col_isnull_sum_le[of col] len by simp
    have "col_isnull_sum col \<noteq> col_len col" using column_stats_Inr(1)[OF st] .
    then have pos: "0 < nrows df" using le len by simp
    show ?thesis
      using m c v p len missing_percentage_of_float[OF pos assms(2) le]
        missing_percentage_of_range[OF pos assms(2) le]
      by auto
  qed
  show ?thesis using A B by blast
qed

theorem missing_percentage_rounded_witness:
  "wf_dataframe example_frame_quarters \<and> nrows example_frame_quarters < 2 ^ 53
   \<and> 0 < nrows example_frame_quarters
   \<and> (\<exists>rows. overview_df example_frame_quarters = Inr rows
          \<and> map ov_missing_percentage rows = [Finite 25, Finite 50])
   \<and> (\<exists>rows. analyze_dataset example_frame_quarters = Inr rows
          \<and> map cb_missing_percentage rows = [Finite 25, Finite 50])"
proof -
  have small: "nrows example_frame_quarters < 2 ^ 53"
    by (simp add: example_frame_quarters_wf(2))
  note rounded = missing_percentage_rounded[OF example_frame_quarters_wf(1) small]
  have pos: "0 < nrows example_frame_quarters" by (simp add: example_frame_quarters_wf(2))
  from rounded pos obtain rows where rows: "overview_df example_frame_quarters = Inr rows"
    and cols: "map ov_column rows = columns example_frame_quarters"
    and each: "\<And>row. row \<in> set rows \<Longrightarrow>
        (\<exists>col. (ov_column row, col) \<in> set example_frame_quarters
               \<and> ov_missing_value row = col_isnull_sum col)
      \<and> ov_missing_percentage row
          = py_round (fmul (fdiv (Finite (real (ov_missing_value row)))
                                 (Finite (real (nrows example_frame_quarters))))
                           (Finite 100)) 2"
    by blast
  from cols obtain r1 r2 where r: "rows = [r1, r2]"
    and n: "ov_column r1 = ''x''" "ov_column r2 = ''y''"
    by (auto simp: columns_def example_frame_quarters_def map_eq_Cons_conv)
  have "ov_missing_value r1 = 1"
    using each[of r1] example_frame_quarters_x by (auto simp: r n)
  moreover have "ov_missing_value r2 = 2"
    using each[of r2] example_frame_quarters_y by (auto simp: r n)
  ultimately have "ov_missing_percentage r1 = Finite 25"
    "ov_missing_percentage r2 = Finite 50"
    using each[of r1] each[of r2] py_round_quarter
    by (simp_all add: r example_frame_quarters_wf(2))
  then have ov: "map ov_missing_percentage rows = [Finite 25, Finite 50]"
    using r by simp
  obtain rows' where rows': "analyze_dataset example_frame_quarters = Inr rows'"
    using example_frame_quarters_analyzed by blast
  from rounded rows' have each': "\<And>row. row \<in> set rows' \<Longrightarrow>
        (\<exists>col. (cb_column row, col) \<in> set example_frame_quarters
               \<and> cb_missing_value row = col_isnull_sum col)
      \<and> cb_missing_percentage row
          = py_round (fmul (fdiv (Finite (real (cb_missing_value row)))
                                 (Finite (real (nrows example_frame_quarters))))
                           (Finite 100)) 2"
    by blast
  from analyze_dataset_columns(2)[OF rows'] obtain s1 s2 where s: "rows' = [s1, s2]"
    and n': "cb_column s1 = ''x''" "cb_column s2 = ''y''"
    by (auto simp: columns_def example_frame_quarters_def map_eq_Cons_conv)
  have "cb_missing_value s1 = 1"
    using each'[of s1] example_frame_quarters_x by (auto simp: s n')
  moreover have "cb_missing_value s2 = 2"
    using each'[of s2] example_frame_quarters_y by (auto simp: s n')
  ultimately have "cb_missing_percentage s1 = Finite 25"
    "cb_missing_percentage s2 = Finite 50"
    using each'[of s1] each'[of s2] py_round_quarter
    by (simp_all add: s example_frame_quarters_wf(2))
  then have cb: "map cb_missing_percentage rows' = [Finite 25, Finite 50]"
    using s by simp
  have "\<exists>rows. overview_df example_frame_quarters = Inr rows
          \<and> map ov_missing_percentage rows = [Finite 25, Finite 50]"
    using rows ov by (intro exI[of _ rows]) simp
  moreover have "\<exists>rows. analyze_dataset example_frame_quarters = Inr rows
          \<and> map cb_missing_percentage rows = [Finite 25, Finite 50]"
    using rows' cb by (intro exI[of _ rows']) simp
  ultimately show ?thesis using example_frame_quarters_wf(1) small pos by simp
qed

text \<open>
  Claim C7. For every well-formed frame on which \<open>analyze_dataset\<close> succeeds, the result
  has exactly one row per input column, and the rows carry the column labels in the order
  of the input columns.
\<close>
theorem analyze_dataset_row_per_column:
  assumes "wf_dataframe df" and "analyze_dataset df = Inr rows"
  shows "length rows = length df \<and> map cb_column rows = map fst df"
  using analyze_dataset_columns[OF assms(2)] by (simp add: columns_def)

theorem analyze_dataset_row_per_column_witness:
  "wf_dataframe example_frame
   \<and> (\<exists>rows. analyze_dataset example_frame = Inr rows
          \<and> length rows = 2 \<and> map cb_column rows = [''x'', ''y''])"
proof -
  obtain rows where rows: "analyze_dataset example_frame = Inr rows"
    using example_frame_analyzed by blast
  from analyze_dataset_row_per_column[OF example_frame_wf(1) rows]
  have "length rows = 2 \<and> map cb_column rows = [''x'', ''y'']"
    by (simp add: example_frame_def)
  then have "\<exists>rows. analyze_dataset example_frame = Inr rows
          \<and> length rows = 2 \<and> map cb_column rows = [''x'', ''y'']"
    using rows by (intro exI[of _ rows]) simp
  then show ?thesis using example_frame_wf(1) by simp
qed

text \<open>
  Claim C8. For every well-formed frame with a column all of whose entries are missing,
  the statistics step of that column raises, and \<open>analyze_dataset\<close> returns the error
  and no result table.
\<close>
theorem analyze_dataset_all_missing_column:
  assumes "wf_dataframe df" and "(column, col) \<in> set df"
    and "col_isnull_sum col = col_len col"
  shows "column_stats column col = Inl ValueError \<and> analyze_dataset df = Inl ValueError"
proof -
  have c: "column \<in> set (columns df)" using assms(2) by (force simp: columns_def)
  have e: "analyze_column df column = Inl ValueError"
    using analyze_column_error[OF assms] .
  have "\<forall>c'\<in>set (columns df). \<forall>e. analyze_column df c' = Inl e \<longrightarrow> e = ValueError"
    using analyze_column_Inl by blast
  from analyze_loop_error[OF c e this]
  have "analyze_dataset df = Inl ValueError" by (simp add: analyze_dataset_def)
  then show ?thesis using column_stats_error[OF assms(3)] by simp
qed

theorem analyze_dataset_all_missing_column_witness:
  "wf_dataframe example_frame_missing
   \<and> (''y'', ObjCol [None, None]) \<in> set example_frame_missing
   \<and> col_isnull_sum (ObjCol [None, None] :: string column)
       = col_len (ObjCol [None, None] :: string column)
   \<and> column_stats ''y'' (ObjCol [None, None] :: string column) = Inl ValueError
   \<and> analyze_dataset example_frame_missing = Inl ValueError"
proof -
  have wf: "wf_dataframe example_frame_missing"
    by (simp add: example_frame_missing_def wf_dataframe_def nrows_def col_len_def)
  have m: "(''y'', ObjCol [None, None]) \<in> set example_frame_missing"
    by (simp add: example_frame_missing_def)
  have e: "col_isnull_sum (ObjCol [None, None] :: string column)
             = col_len (ObjCol [None, None] :: string column)"
    by (simp add: col_isnull_sum_def isnull_sum_def col_len_def)
  from analyze_dataset_all_missing_column[OF wf m e] show ?thesis using wf m e by simp
qed

text \<open>
  Claim C10. For every well-formed frame on which \<open>analyze_dataset\<close> succeeds, every
  output row satisfies \<open>n + missing_value = \<close> the row count of the frame, \<open>n\<close> being the
  number of non-missing entries of the row's column, whichever branch computed it.
\<close>
theorem analyze_dataset_n_plus_missing:
  assumes "wf_dataframe df" and "analyze_dataset df = Inr rows"
  shows "\<forall>row\<in>set rows.
           cb_n row + cb_missing_value row = nrows df
         \<and> (\<exists>col. (cb_column row, col) \<in> set df
                  \<and> cb_missing_value row = col_isnull_sum col
                  \<and> cb_n row = col_len col - col_isnull_sum col)"
proof
  fix row assume "row \<in> set rows"
  from analyze_dataset_row[OF assms(2) this] obtain c
    where "analyze_column df c = Inr row" by blast
  from analyze_column_Inr[OF this] obtain col st
    where m: "(c, col) \<in> set df" and st: "column_stats c col = Inr st"
      and c: "cb_column row = c"
      and n: "cb_n row = get_n st (col_len col)"
      and v: "cb_missing_value row = col_isnull_sum col"
    by blast
  have len: "col_len col = nrows df" using wf_col_len[OF assms(1) m] .
  have s: "get_n st (col_len col) + col_isnull_sum col = col_len col"
    using column_stats_Inr(2)[OF st] .
  then have "cb_n row = col_len col - col_isnull_sum col" using n by simp
  then show "cb_n row + cb_missing_value row = nrows df
         \<and> (\<exists>col. (cb_column row, col) \<in> set df
                  \<and> cb_missing_value row = col_isnull_sum col
                  \<and> cb_n row = col_len col - col_isnull_sum col)"
    using m c n v len s by auto
qed

theorem analyze_dataset_n_plus_missing_witness:
  "wf_dataframe example_frame
   \<and> (\<exists>rows. analyze_dataset example_frame = Inr rows
          \<and> map (\<lambda>row. cb_n row + cb_missing_value row) rows = [3, 3]
          \<and> map cb_missing_value rows = [1, 2] \<and> map cb_n rows = [2, 1])"
proof -
  obtain rows where rows: "analyze_dataset example_frame = Inr rows"
    using example_frame_analyzed by blast
  from analyze_dataset_n_plus_missing[OF example_frame_wf(1) rows]
  have each: "\<And>row. row \<in> set rows \<Longrightarrow>
           cb_n row + cb_missing_value row = 3
         \<and> (\<exists>col. (cb_column row, col) \<in> set example_frame
                  \<and> cb_missing_value row = col_isnull_sum col)"
    by (simp add: example_frame_wf(2)) blast
  from analyze_dataset_columns(2)[OF rows] obtain s1 s2 where s: "rows = [s1, s2]"
    and n: "cb_column s1 = ''x''" "cb_column s2 = ''y''"
    by (auto simp: columns_def example_frame_def map_eq_Cons_conv)
  have v: "cb_missing_value s1 = 1" "cb_missing_value s2 = 2"
    using each[of s1] each[of s2] example_frame_x example_frame_y by (auto simp: s n)
  have "cb_n s1 + cb_missing_value s1 = 3" "cb_n s2 + cb_missing_value s2 = 3"
    using each[of s1] each[of s2] by (simp_all add: s)
  then have "map (\<lambda>row. cb_n row + cb_missing_value row) rows = [3, 3]
      \<and> map cb_missing_value rows = [1, 2] \<and> map cb_n rows = [2, 1]"
    using v s by simp
  then have "\<exists>rows. analyze_dataset example_frame = Inr rows
          \<and> map (\<lambda>row. cb_n row + cb_missing_value row) rows = [3, 3]
          \<and> map cb_missing_value rows = [1, 2] \<and> map cb_n rows = [2, 1]"
    using rows by (intro exI[of _ rows]) simp
  then show ?thesis using example_frame_wf(1) by simp
qed

end
